theory Spec2Isabelle
  imports Complex_Main "HOL-Library.Word" "HOL-Library.While_Combinator" "HOL-Library.Log_Nat"
begin

unbundle bit_operations_syntax


section \<open>JavaScript strings\<close>

text \<open>
  A JavaScript string is a sequence of UTF-16 code units; \<open>length\<close>, \<open>slice\<close> and
  \<open>trim\<close> count code units. String literals of the source that are plain ASCII are
  written with \<open>lit\<close>.
\<close>

type_synonym jsstring = "16 word list"

definition lit :: "string \<Rightarrow> jsstring" where
  "lit s = map (\<lambda>c. of_nat (of_char c)) s"

text \<open>\<open>WhiteSpace\<close> and \<open>LineTerminator\<close> of ECMAScript: what \<open>String.prototype.trim\<close> strips.\<close>

definition is_ws :: "16 word \<Rightarrow> bool" where
  "is_ws c \<longleftrightarrow>
     c \<in> {0x09, 0x0A, 0x0B, 0x0C, 0x0D, 0x20, 0xA0, 0x1680, 0x2028, 0x2029,
          0x202F, 0x205F, 0x3000, 0xFEFF}
     \<or> (0x2000 \<le> c \<and> c \<le> 0x200A)"

definition trim :: "jsstring \<Rightarrow> jsstring" where
  "trim s = rev (dropWhile is_ws (rev (dropWhile is_ws s)))"

text \<open>\<open>s.slice(0, n)\<close> for \<open>n \<ge> 0\<close>.\<close>

definition slice0 :: "nat \<Rightarrow> jsstring \<Rightarrow> jsstring" where
  "slice0 n s = take n s"

text \<open>\<open>String(n)\<close> for a non-negative integer: its decimal digits.\<close>

function String_of_nat :: "nat \<Rightarrow> jsstring" where
  "String_of_nat n =
     (if n < 10 then [0x30 + of_nat n]
      else String_of_nat (n div 10) @ [0x30 + of_nat (n mod 10)])"
  by pat_completeness auto
termination
  by (relation "measure id") auto

declare String_of_nat.simps [simp del]

text \<open>\<open>s.padStart(n, "0")\<close>: a string already \<open>n\<close> units long or longer is unchanged.\<close>

definition padStart :: "nat \<Rightarrow> 16 word \<Rightarrow> jsstring \<Rightarrow> jsstring" where
  "padStart n c s = replicate (n - length s) c @ s"

text \<open>\<open>xs.join(sep)\<close>.\<close>

fun join :: "jsstring \<Rightarrow> jsstring list \<Rightarrow> jsstring" where
  "join sep [] = []"
| "join sep [x] = x"
| "join sep (x # y # ys) = x @ sep @ join sep (y # ys)"


section \<open>Images\<close>

text \<open>
  A decoded PNG as \<open>pngjs\<close> hands it over: width, height and a flat RGBA buffer, four
  bytes per pixel, rows top to bottom.
\<close>

type_synonym bytes = "8 word list"

record png =
  width :: nat
  height :: nat
  data :: bytes

text \<open>
  \<open>alphaAt(p) = data[p * 4 + 3]\<close>. A read past the end of a buffer gives
  \<open>undefined\<close>, which is neither \<open>=== 0\<close> nor \<open>!== 0\<close>-false: \<open>None\<close> here.
\<close>

definition alphaAt :: "bytes \<Rightarrow> nat \<Rightarrow> 8 word option" where
  "alphaAt d p = (if p * 4 + 3 < length d then Some (d ! (p * 4 + 3)) else None)"

section \<open>Alpha normalisation: \<open>makeInteriorOpaquePngBase64\<close>\<close>

subsection \<open>Phase 1: filling enclosed transparent holes\<close>

text \<open>
  The block-local state of the flood fill: \<open>bg\<close> (a \<open>Uint8Array\<close>), the queue
  \<open>q2\<close> (an \<open>Int32Array\<close> holding pixel indices) and its two cursors. A typed array
  ignores a write past its end and reads \<open>undefined\<close> there.
\<close>

record flood =
  bg :: "8 word list"
  q2 :: "nat list"
  h2 :: nat
  t2 :: nat

definition pushIfTransparent :: "nat \<Rightarrow> bytes \<Rightarrow> nat \<Rightarrow> nat \<Rightarrow> flood \<Rightarrow> flood" where
  "pushIfTransparent w d x y s =
     (let p = y * w + x in
      if alphaAt d p \<noteq> Some 0 then s
      else if p < length (bg s) \<and> bg s ! p \<noteq> 0 then s
      else s\<lparr>bg := (bg s)[p := 1], q2 := (q2 s)[t2 s := p], t2 := t2 s + 1\<rparr>)"

text \<open>
  Seeding from the border. With \<open>height = 0\<close> (or \<open>width = 0\<close>) the coordinate
  \<open>height - 1\<close> (or \<open>width - 1\<close>) is \<open>-1\<close>, the pixel index is negative, the alpha read
  is \<open>undefined\<close> and the push returns at once.
\<close>

definition seed_rows :: "nat \<Rightarrow> nat \<Rightarrow> bytes \<Rightarrow> flood \<Rightarrow> flood" where
  "seed_rows w h d s =
     fold (\<lambda>x s. let s' = pushIfTransparent w d x 0 s
                  in if h = 0 then s' else pushIfTransparent w d x (h - 1) s') [0..<w] s"

definition seed_cols :: "nat \<Rightarrow> nat \<Rightarrow> bytes \<Rightarrow> flood \<Rightarrow> flood" where
  "seed_cols w h d s =
     fold (\<lambda>y s. let s' = pushIfTransparent w d 0 y s
                  in if w = 0 then s' else pushIfTransparent w d (w - 1) y s') [0..<h] s"

text \<open>
  One round of \<open>while (h2 < t2)\<close>: pop \<open>p\<close>, split it into \<open>x = p % width\<close> and
  \<open>y = (p / width) | 0\<close>, and push the four neighbours that lie on the canvas. A pop past
  the end of \<open>q2\<close>, or \<open>width = 0\<close>, makes the coordinates \<open>NaN\<close> and nothing is
  pushed.
\<close>

definition flood_step :: "nat \<Rightarrow> nat \<Rightarrow> bytes \<Rightarrow> flood \<Rightarrow> flood" where
  "flood_step w h d s =
     (let s0 = s\<lparr>h2 := h2 s + 1\<rparr> in
      if \<not> h2 s < length (q2 s) \<or> w = 0 then s0
      else
        let p = q2 s ! h2 s;
            x = p mod w;
            y = p div w;
            s1 = (if x > 0 then pushIfTransparent w d (x - 1) y s0 else s0);
            s2 = (if x + 1 < w then pushIfTransparent w d (x + 1) y s1 else s1);
            s3 = (if y > 0 then pushIfTransparent w d x (y - 1) s2 else s2)
        in if y + 1 < h then pushIfTransparent w d x (y + 1) s3 else s3)"

definition flood_loop :: "nat \<Rightarrow> nat \<Rightarrow> bytes \<Rightarrow> flood \<Rightarrow> flood option" where
  "flood_loop w h d s = while_option (\<lambda>s. h2 s < t2 s) (flood_step w h d) s"

text \<open>The last loop of the block: every alpha-0 pixel the flood did not mark becomes opaque white.\<close>

definition fill_hole :: "8 word list \<Rightarrow> nat \<Rightarrow> bytes \<Rightarrow> bytes" where
  "fill_hole b p d =
     (if alphaAt d p \<noteq> Some 0 then d
      else if p < length b \<and> b ! p \<noteq> 0 then d
      else d[p * 4 + 0 := 255, p * 4 + 1 := 255, p * 4 + 2 := 255, p * 4 + 3 := 255])"

text \<open>\<open>bg\<close> and \<open>q2\<close> freshly allocated (zero-filled, \<open>size\<close> elements), both cursors at 0.\<close>

definition flood_init :: "nat \<Rightarrow> nat \<Rightarrow> flood" where
  "flood_init w h = \<lparr>bg = replicate (w * h) 0, q2 = replicate (w * h) 0, h2 = 0, t2 = 0\<rparr>"

definition phase1 :: "png \<Rightarrow> png option" where
  "phase1 img =
     (let w = width img; h = height img; d = data img; size = w * h
      in case flood_loop w h d (seed_cols w h d (seed_rows w h d (flood_init w h))) of
           None \<Rightarrow> None
         | Some s \<Rightarrow> Some (img\<lparr>data := fold (fill_hole (bg s)) [0..<size] d\<rparr>))"

subsection \<open>Phase 2: distance from the edge and the opacity clamp\<close>

text \<open>An \<open>Int16Array\<close> element: a store keeps the low 16 bits, read back as a signed value.\<close>

definition int16 :: "int \<Rightarrow> int" where
  "int16 v = (v + 32768) mod 65536 - 32768"

record bfs =
  dist_arr :: "int list"
  q :: "nat list"
  head :: nat
  tail :: nat

text \<open>
  The two nested offset loops with their early exits compute whether some offset other
  than \<open>(0, 0)\<close> leads off the canvas or to a pixel of alpha 0.
\<close>

definition isEdge :: "nat \<Rightarrow> nat \<Rightarrow> bytes \<Rightarrow> nat \<Rightarrow> nat \<Rightarrow> bool" where
  "isEdge w h d x y =
     list_ex (\<lambda>dy. list_ex (\<lambda>dx.
        \<not> (dx = 0 \<and> dy = 0) \<and>
        (let nx = int x + dx; ny = int y + dy in
           nx < 0 \<or> ny < 0 \<or> nx \<ge> int w \<or> ny \<ge> int h \<or>
           alphaAt d (nat (ny * int w + nx)) = Some 0)) [-1, 0, 1]) [-1, 0, 1]"

definition mark_edge :: "nat \<Rightarrow> nat \<Rightarrow> bytes \<Rightarrow> nat \<Rightarrow> nat \<Rightarrow> bfs \<Rightarrow> bfs" where
  "mark_edge w h d y x s =
     (let p = y * w + x in
      if alphaAt d p = Some 0 then s
      else if isEdge w h d x y then
        s\<lparr>dist_arr := (dist_arr s)[p := 0], q := (q s)[tail s := p], tail := tail s + 1\<rparr>
      else s)"

definition seed_edges :: "nat \<Rightarrow> nat \<Rightarrow> bytes \<Rightarrow> bfs \<Rightarrow> bfs" where
  "seed_edges w h d s = fold (\<lambda>y. fold (mark_edge w h d y) [0..<w]) [0..<h] s"

text \<open>One neighbour \<open>[nx, ny]\<close> of the popped pixel, whose distance is \<open>dv\<close>.\<close>

definition relax :: "nat \<Rightarrow> nat \<Rightarrow> bytes \<Rightarrow> int \<Rightarrow> int \<times> int \<Rightarrow> bfs \<Rightarrow> bfs" where
  "relax w h d dv n s =
     (let nx = fst n; ny = snd n in
      if nx < 0 \<or> ny < 0 \<or> nx \<ge> int w \<or> ny \<ge> int h then s
      else
        let np = nat (ny * int w + nx) in
        if alphaAt d np = Some 0 then s
        else if \<not> (np < length (dist_arr s) \<and> dist_arr s ! np = -1) then s
        else s\<lparr>dist_arr := (dist_arr s)[np := int16 (dv + 1)],
                q := (q s)[tail s := np], tail := tail s + 1\<rparr>)"

definition bfs_step :: "nat \<Rightarrow> nat \<Rightarrow> bytes \<Rightarrow> bfs \<Rightarrow> bfs" where
  "bfs_step w h d s =
     (let s0 = s\<lparr>head := head s + 1\<rparr> in
      if \<not> head s < length (q s) \<or> w = 0 then s0
      else
        let p = q s ! head s;
            x = int (p mod w);
            y = int (p div w);
            dv = dist_arr s ! p
        in fold (relax w h d dv) [(x - 1, y), (x + 1, y), (x, y - 1), (x, y + 1)] s0)"

definition bfs_loop :: "nat \<Rightarrow> nat \<Rightarrow> bytes \<Rightarrow> bfs \<Rightarrow> bfs option" where
  "bfs_loop w h d s = while_option (\<lambda>s. head s < tail s) (bfs_step w h d) s"

definition KEEP_EDGE_PX :: int where
  "KEEP_EDGE_PX = 2"

definition clamp_alpha :: "int list \<Rightarrow> nat \<Rightarrow> bytes \<Rightarrow> bytes" where
  "clamp_alpha dst p d =
     (if alphaAt d p = Some 0 then d
      else if p < length dst \<and> dst ! p > KEEP_EDGE_PX then d[p * 4 + 3 := 255]
      else d)"

text \<open>\<open>dist\<close> filled with \<open>-1\<close>, \<open>q\<close> zero-filled, both cursors at 0.\<close>

definition bfs_init :: "nat \<Rightarrow> nat \<Rightarrow> bfs" where
  "bfs_init w h =
     \<lparr>dist_arr = replicate (w * h) (-1), q = replicate (w * h) 0, head = 0, tail = 0\<rparr>"

definition phase2 :: "png \<Rightarrow> png option" where
  "phase2 img =
     (let w = width img; h = height img; d = data img; size = w * h
      in case bfs_loop w h d (seed_edges w h d (bfs_init w h)) of
           None \<Rightarrow> None
         | Some s \<Rightarrow> Some (img\<lparr>data := fold (clamp_alpha (dist_arr s)) [0..<size] d\<rparr>))"

definition alpha_normalise :: "png \<Rightarrow> png option" where
  "alpha_normalise img = (case phase1 img of None \<Rightarrow> None | Some img1 \<Rightarrow> phase2 img1)"


definition transparent :: "bytes \<Rightarrow> nat \<Rightarrow> bool" where
  "transparent d p \<longleftrightarrow> alphaAt d p = Some 0"

definition adj4 :: "nat \<Rightarrow> nat \<Rightarrow> nat \<Rightarrow> bool" where
  "adj4 w p r \<longleftrightarrow>
     (p div w = r div w \<and> (p mod w = r mod w + 1 \<or> r mod w = p mod w + 1)) \<or>
     (p mod w = r mod w \<and> (p div w = r div w + 1 \<or> r div w = p div w + 1))"

definition on_border :: "nat \<Rightarrow> nat \<Rightarrow> nat \<Rightarrow> bool" where
  "on_border w h p \<longleftrightarrow> p mod w = 0 \<or> p mod w + 1 = w \<or> p div w = 0 \<or> p div w + 1 = h"

fun border_reach :: "nat \<Rightarrow> nat \<Rightarrow> bytes \<Rightarrow> nat \<Rightarrow> nat \<Rightarrow> bool" where
  "border_reach w h d 0 p \<longleftrightarrow> p < w * h \<and> transparent d p \<and> on_border w h p"
| "border_reach w h d (Suc n) p \<longleftrightarrow>
     border_reach w h d n p \<or>
     (p < w * h \<and> transparent d p \<and>
      list_ex (\<lambda>r. adj4 w r p \<and> border_reach w h d n r) [0..<w * h])"

definition border_connected :: "nat \<Rightarrow> nat \<Rightarrow> bytes \<Rightarrow> nat \<Rightarrow> bool" where
  "border_connected w h d p \<longleftrightarrow> (\<exists>n. border_reach w h d n p)"

definition wf_png :: "png \<Rightarrow> bool" where
  "wf_png img \<longleftrightarrow>
     0 < width img \<and> 0 < height img \<and> length (data img) = 4 * (width img * height img) \<and>
     4 * (width img * height img) \<le> 2 ^ 32"

definition marked :: "flood \<Rightarrow> nat \<Rightarrow> bool" where
  "marked s p \<longleftrightarrow> p < length (bg s) \<and> bg s ! p \<noteq> 0"

definition flood_inv :: "nat \<Rightarrow> nat \<Rightarrow> bytes \<Rightarrow> flood \<Rightarrow> bool" where
  "flood_inv w h d s \<longleftrightarrow>
     length (bg s) = w * h \<and> length (q2 s) = w * h \<and> h2 s \<le> t2 s \<and> t2 s \<le> w * h \<and>
     distinct (take (t2 s) (q2 s)) \<and>
     (\<forall>p. p \<in> set (take (t2 s) (q2 s)) \<longleftrightarrow> marked s p) \<and>
     (\<forall>p. marked s p \<longrightarrow> border_connected w h d p)"

definition flood_ext :: "flood \<Rightarrow> flood \<Rightarrow> bool" where
  "flood_ext s s' \<longleftrightarrow>
     h2 s' = h2 s \<and> t2 s \<le> t2 s' \<and> (\<forall>p. marked s p \<longrightarrow> marked s' p) \<and>
     (\<forall>i < t2 s. q2 s' ! i = q2 s ! i)"

definition flood_closed :: "nat \<Rightarrow> nat \<Rightarrow> bytes \<Rightarrow> flood \<Rightarrow> bool" where
  "flood_closed w h d s \<longleftrightarrow>
     (\<forall>i < h2 s. \<forall>r < w * h. adj4 w (q2 s ! i) r \<and> transparent d r \<longrightarrow> marked s r)"

definition flood_seeded :: "nat \<Rightarrow> nat \<Rightarrow> bytes \<Rightarrow> flood \<Rightarrow> bool" where
  "flood_seeded w h d s \<longleftrightarrow>
     (\<forall>p < w * h. transparent d p \<and> on_border w h p \<longrightarrow> marked s p)"

definition rows_done :: "nat \<Rightarrow> nat \<Rightarrow> bytes \<Rightarrow> nat \<Rightarrow> flood \<Rightarrow> bool" where
  "rows_done w h d n s \<longleftrightarrow>
     flood_inv w h d s \<and> h2 s = 0 \<and>
     (\<forall>x < n. (transparent d (0 * w + x) \<longrightarrow> marked s (0 * w + x)) \<and>
              (transparent d ((h - 1) * w + x) \<longrightarrow> marked s ((h - 1) * w + x)))"

definition cols_done :: "nat \<Rightarrow> nat \<Rightarrow> bytes \<Rightarrow> nat \<Rightarrow> flood \<Rightarrow> bool" where
  "cols_done w h d n s \<longleftrightarrow>
     rows_done w h d w s \<and>
     (\<forall>y < n. (transparent d (y * w + 0) \<longrightarrow> marked s (y * w + 0)) \<and>
              (transparent d (y * w + (w - 1)) \<longrightarrow> marked s (y * w + (w - 1))))"

definition flood_ok :: "nat \<Rightarrow> nat \<Rightarrow> bytes \<Rightarrow> flood \<Rightarrow> bool" where
  "flood_ok w h d s \<longleftrightarrow> flood_inv w h d s \<and> flood_closed w h d s \<and> flood_seeded w h d s"

definition hole_at :: "8 word list \<Rightarrow> bytes \<Rightarrow> nat \<Rightarrow> bool" where
  "hole_at b d p \<longleftrightarrow> alphaAt d p = Some 0 \<and> \<not> (p < length b \<and> b ! p \<noteq> 0)"

definition rgba :: "bytes \<Rightarrow> nat \<Rightarrow> 8 word \<times> 8 word \<times> 8 word \<times> 8 word" where
  "rgba d p = (d ! (p * 4), d ! (p * 4 + 1), d ! (p * 4 + 2), d ! (p * 4 + 3))"

definition opaque :: "bytes \<Rightarrow> nat \<Rightarrow> bool" where
  "opaque d p \<longleftrightarrow> alphaAt d p \<noteq> Some 0"

definition adj8 :: "nat \<Rightarrow> nat \<Rightarrow> nat \<Rightarrow> bool" where
  "adj8 w p r \<longleftrightarrow>
     p \<noteq> r \<and> p mod w \<le> r mod w + 1 \<and> r mod w \<le> p mod w + 1 \<and>
     p div w \<le> r div w + 1 \<and> r div w \<le> p div w + 1"

definition edge_pixel :: "nat \<Rightarrow> nat \<Rightarrow> bytes \<Rightarrow> nat \<Rightarrow> bool" where
  "edge_pixel w h d p \<longleftrightarrow>
     p < w * h \<and> opaque d p \<and>
     (on_border w h p \<or> list_ex (\<lambda>r. adj8 w p r \<and> transparent d r) [0..<w * h])"

fun near :: "nat \<Rightarrow> nat \<Rightarrow> bytes \<Rightarrow> nat \<Rightarrow> nat \<Rightarrow> bool" where
  "near w h d 0 p \<longleftrightarrow> edge_pixel w h d p"
| "near w h d (Suc n) p \<longleftrightarrow>
     near w h d n p \<or>
     (p < w * h \<and> opaque d p \<and> list_ex (\<lambda>r. adj4 w r p \<and> near w h d n r) [0..<w * h])"

definition level :: "nat \<Rightarrow> nat \<Rightarrow> bytes \<Rightarrow> nat \<Rightarrow> nat \<Rightarrow> bool" where
  "level w h d n p \<longleftrightarrow> near w h d n p \<and> (n = 0 \<or> \<not> near w h d (n - 1) p)"

definition visited :: "bfs \<Rightarrow> nat \<Rightarrow> bool" where
  "visited s p \<longleftrightarrow> p < length (dist_arr s) \<and> dist_arr s ! p \<noteq> -1"

definition bfs_queue :: "bfs \<Rightarrow> nat list" where
  "bfs_queue s = take (tail s) (q s)"

definition bfs_base :: "nat \<Rightarrow> nat \<Rightarrow> bytes \<Rightarrow> bfs \<Rightarrow> bool" where
  "bfs_base w h d s \<longleftrightarrow>
     length (dist_arr s) = w * h \<and> length (q s) = w * h \<and> head s \<le> tail s \<and> tail s \<le> w * h \<and>
     distinct (bfs_queue s) \<and>
     (\<forall>p. p \<in> set (bfs_queue s) \<longleftrightarrow> visited s p) \<and>
     (\<forall>p. visited s p \<longrightarrow> (\<exists>n. dist_arr s ! p = int n \<and> level w h d n p)) \<and>
     sorted (map (\<lambda>p. dist_arr s ! p) (bfs_queue s))"

definition bfs_below :: "nat \<Rightarrow> nat \<Rightarrow> bytes \<Rightarrow> int \<Rightarrow> bfs \<Rightarrow> bool" where
  "bfs_below w h d c s \<longleftrightarrow>
     (\<forall>p. visited s p \<longrightarrow> dist_arr s ! p \<le> c + 1) \<and>
     (\<forall>r n. level w h d n r \<and> int n \<le> c \<longrightarrow> visited s r)"

definition bfs_ext :: "bfs \<Rightarrow> bfs \<Rightarrow> bool" where
  "bfs_ext s s' \<longleftrightarrow>
     head s' = head s \<and> tail s \<le> tail s' \<and>
     (\<forall>p. visited s p \<longrightarrow> visited s' p \<and> dist_arr s' ! p = dist_arr s ! p) \<and>
     (\<forall>i < tail s. q s' ! i = q s ! i)"

definition bfs_closed :: "nat \<Rightarrow> nat \<Rightarrow> bytes \<Rightarrow> nat \<Rightarrow> bfs \<Rightarrow> bool" where
  "bfs_closed w h d k s \<longleftrightarrow>
     (\<forall>i < k. \<forall>r < w * h. adj4 w (q s ! i) r \<and> opaque d r \<longrightarrow> visited s r)"

definition bfs_ok :: "nat \<Rightarrow> nat \<Rightarrow> bytes \<Rightarrow> bfs \<Rightarrow> bool" where
  "bfs_ok w h d s \<longleftrightarrow>
     bfs_base w h d s \<and> (\<forall>p. edge_pixel w h d p \<longrightarrow> visited s p) \<and>
     bfs_closed w h d (head s) s \<and>
     (head s < tail s \<longrightarrow> bfs_below w h d (dist_arr s ! (q s ! head s)) s)"

definition bfs_seed :: "nat \<Rightarrow> nat \<Rightarrow> bytes \<Rightarrow> nat \<Rightarrow> bfs \<Rightarrow> bool" where
  "bfs_seed w h d k s \<longleftrightarrow>
     bfs_base w h d s \<and> head s = 0 \<and>
     (\<forall>p. visited s p \<longleftrightarrow> p < k \<and> edge_pixel w h d p) \<and>
     (\<forall>p. visited s p \<longrightarrow> dist_arr s ! p = 0)"

section \<open>Binary64 arithmetic\<close>

text \<open>
  A JavaScript number is an IEEE 754 binary64 value. The numbers of the resize are finite,
  and a finite binary64 value is modelled as the rational it denotes (the sign of a zero
  plays no part in the comparisons and products below). An arithmetic operation is the exact
  operation followed by \<open>binary64\<close>, the rounding to the nearest representable value with
  ties to the even significand: 53 significant bits above \<open>2^-1022\<close>, multiples of
  \<open>2^-1074\<close> below. Rounding to infinity, from \<open>2^1024 - 2^970\<close> on, is not modelled: with
  dimensions and buffers below \<open>2^32\<close> every number here stays below \<open>2^70\<close>. Integers
  below \<open>2^53\<close> and their sums, differences and products below \<open>2^53\<close> are exact, so the
  pixel counters and buffer indices are left as integers.
\<close>

definition pow2 :: "int \<Rightarrow> rat" where
  "pow2 k = (if 0 \<le> k then 2 ^ nat k else 1 / 2 ^ nat (- k))"

text \<open>For \<open>x > 0\<close>, the \<open>e\<close> with \<open>2^e \<le> x < 2^(e+1)\<close>.\<close>

definition exponent :: "rat \<Rightarrow> int" where
  "exponent x =
     (let (a, b) = quotient_of x;
          d = bitlen a - bitlen b
      in if pow2 d \<le> x then d else d - 1)"

text \<open>The nearest integer, a tie going to the even one.\<close>

definition round_even :: "rat \<Rightarrow> int" where
  "round_even m =
     (let f = \<lfloor>m\<rfloor>; d = m - of_int f
      in if d < 1 / 2 then f else if 1 / 2 < d then f + 1 else if even f then f else f + 1)"

definition binary64 :: "rat \<Rightarrow> rat" where
  "binary64 x =
     (if x = 0 then 0
      else let k = max (exponent \<bar>x\<bar> - 52) (- 1074)
           in sgn x * of_int (round_even (\<bar>x\<bar> / pow2 k)) * pow2 k)"

section \<open>Contain resize: \<open>resizeContainBilinear\<close>\<close>

text \<open>
  The geometry of the function divides by \<open>srcW\<close>, \<open>srcH\<close> and \<open>scale\<close>; a decoded image
  has \<open>srcW, srcH \<ge> 1\<close>, and the loops run only when \<open>dstW, dstH \<ge> 1\<close>, where \<open>scale\<close> is
  positive.
\<close>

definition clamp :: "int \<Rightarrow> int \<Rightarrow> int \<Rightarrow> int" where
  "clamp v lo hi = max lo (min hi v)"

text \<open>\<open>srcData[i]\<close> as a number; \<open>undefined\<close> (hence \<open>NaN\<close> in arithmetic) past the end.\<close>

definition byte_at :: "bytes \<Rightarrow> nat \<Rightarrow> rat option" where
  "byte_at d i = (if i < length d then Some (of_nat (unat (d ! i))) else None)"

text \<open>The three interpolation lines for channel \<open>c\<close>; \<open>None\<close> is \<open>NaN\<close>.\<close>

definition interp ::
  "bytes \<Rightarrow> nat \<Rightarrow> nat \<Rightarrow> nat \<Rightarrow> nat \<Rightarrow> rat \<Rightarrow> rat \<Rightarrow> nat \<Rightarrow> rat option" where
  "interp srcData p00 p10 p01 p11 tx ty c =
     (case byte_at srcData (p00 + c) of None \<Rightarrow> None | Some v00 \<Rightarrow>
      case byte_at srcData (p10 + c) of None \<Rightarrow> None | Some v10 \<Rightarrow>
      case byte_at srcData (p01 + c) of None \<Rightarrow> None | Some v01 \<Rightarrow>
      case byte_at srcData (p11 + c) of None \<Rightarrow> None | Some v11 \<Rightarrow>
        let v0 = binary64 (binary64 (v00 * binary64 (1 - tx)) + binary64 (v10 * tx));
            v1 = binary64 (binary64 (v01 * binary64 (1 - tx)) + binary64 (v11 * tx))
        in Some (binary64 (binary64 (v0 * binary64 (1 - ty)) + binary64 (v1 * ty))))"

text \<open>
  \<open>dstData[i] = v | 0\<close>: \<open>| 0\<close> drops the fraction (towards zero, \<open>NaN\<close> gives 0) and keeps
  32 bits, the byte store keeps the low 8 of those.
\<close>

definition store_trunc :: "rat option \<Rightarrow> 8 word" where
  "store_trunc v =
     (case v of None \<Rightarrow> 0 | Some r \<Rightarrow> word_of_int (if r < 0 then \<lceil>r\<rceil> else \<lfloor>r\<rfloor>))"

text \<open>The inverse map of a destination coordinate, and the test that skips a pixel.\<close>

definition inv_map :: "rat \<Rightarrow> rat \<Rightarrow> nat \<Rightarrow> rat" where
  "inv_map scale off x = binary64 (binary64 (of_nat x - off) / scale)"

definition outside :: "png \<Rightarrow> rat \<Rightarrow> rat \<Rightarrow> bool" where
  "outside srcPng sx sy \<longleftrightarrow>
     sx < 0 \<or> sy < 0 \<or> sx > of_nat (width srcPng) - 1 \<or> sy > of_nat (height srcPng) - 1"

text \<open>The value written to channel \<open>c\<close> of a destination pixel that is not skipped.\<close>

definition sample :: "png \<Rightarrow> rat \<Rightarrow> rat \<Rightarrow> nat \<Rightarrow> rat option" where
  "sample srcPng sx sy c =
     (let srcW = int (width srcPng); srcH = int (height srcPng);
          x0 = \<lfloor>sx\<rfloor>; y0 = \<lfloor>sy\<rfloor>;
          x1 = clamp (x0 + 1) 0 (srcW - 1);
          y1 = clamp (y0 + 1) 0 (srcH - 1);
          tx = binary64 (sx - of_int x0); ty = binary64 (sy - of_int y0);
          p00 = nat ((y0 * srcW + x0) * 4);
          p10 = nat ((y0 * srcW + x1) * 4);
          p01 = nat ((y1 * srcW + x0) * 4);
          p11 = nat ((y1 * srcW + x1) * 4)
      in interp (data srcPng) p00 p10 p01 p11 tx ty c)"

text \<open>The body of the two nested loops for destination pixel \<open>(x, y)\<close>.\<close>

definition draw_pixel ::
  "png \<Rightarrow> nat \<Rightarrow> rat \<Rightarrow> rat \<Rightarrow> rat \<Rightarrow> nat \<Rightarrow> nat \<Rightarrow> bytes \<Rightarrow> bytes" where
  "draw_pixel srcPng dstW scale offX offY y x dstData =
     (let sx = inv_map scale offX x;
          sy = inv_map scale offY y
      in if outside srcPng sx sy then dstData
         else
           let di = (y * dstW + x) * 4
           in fold (\<lambda>c dd. dd[di + c := store_trunc (sample srcPng sx sy c)]) [0..<4] dstData)"

text \<open>The geometry computed before the loops.\<close>

definition contain_scale :: "png \<Rightarrow> nat \<Rightarrow> nat \<Rightarrow> rat" where
  "contain_scale srcPng dstW dstH =
     min (binary64 (of_nat dstW / of_nat (width srcPng)))
         (binary64 (of_nat dstH / of_nat (height srcPng)))"

definition contain_offX :: "png \<Rightarrow> nat \<Rightarrow> nat \<Rightarrow> rat" where
  "contain_offX srcPng dstW dstH =
     (let drawW = binary64 (of_nat (width srcPng) * contain_scale srcPng dstW dstH)
      in binary64 (binary64 (of_nat dstW - drawW) / 2))"

definition contain_offY :: "png \<Rightarrow> nat \<Rightarrow> nat \<Rightarrow> rat" where
  "contain_offY srcPng dstW dstH =
     (let drawH = binary64 (of_nat (height srcPng) * contain_scale srcPng dstW dstH)
      in binary64 (binary64 (of_nat dstH - drawH) / 2))"

text \<open>The destination canvas after the loops (what \<open>PNG.sync.write\<close> then encodes).\<close>

definition resize_canvas :: "png \<Rightarrow> nat \<Rightarrow> nat \<Rightarrow> png" where
  "resize_canvas srcPng dstW dstH =
     (let scale = contain_scale srcPng dstW dstH;
          offX = contain_offX srcPng dstW dstH;
          offY = contain_offY srcPng dstW dstH;
          dst0 = replicate (dstW * dstH * 4) 0
      in \<lparr>width = dstW, height = dstH,
          data = fold (\<lambda>y. fold (draw_pixel srcPng dstW scale offX offY y) [0..<dstW])
                   [0..<dstH] dst0\<rparr>)"


section \<open>HTTP values shared by the route handlers\<close>

text \<open>
  What \<open>fetch\<close> hands back from the upstream service: either the promise rejects
  (a thrown exception carrying a message), or a response with its \<open>ok\<close> flag, status code,
  body text, and the fields the handlers read from the parsed JSON body.
\<close>

record response =
  ok :: bool
  status :: nat
  text_body :: jsstring
  json_id :: jsstring
  json_status :: jsstring
  json_output_file_id :: "jsstring option"
  json_b64 :: "jsstring option"

datatype fetched = Rejected jsstring | Resp response

text \<open>The upstream calls a handler performs, in order: the observable effect on the service.\<close>

datatype upstream_call =
    UploadFile jsstring
  | CreateBatch jsstring
  | QueryStatus jsstring
  | FetchContent jsstring

text \<open>The bodies the handlers answer with, and the answer itself (\<open>NextResponse\<close>).\<close>

record out_item =
  oi_custom_id :: jsstring
  oi_message :: jsstring
  oi_keyword :: jsstring

datatype reply_body =
    ErrorBody jsstring
  | BatchCreated jsstring "out_item list"
  | PendingBody jsstring jsstring
  | ImageBody bytes

record reply =
  code :: nat
  body :: reply_body

definition json_reply :: "reply_body \<Rightarrow> nat \<Rightarrow> reply" where
  "json_reply b c = \<lparr>code = c, body = b\<rparr>"

text \<open>
  One element of \<open>payload.items\<close> after \<open>(x?.message ?? "").toString()\<close> and
  \<open>(x?.keyword ?? "").toString()\<close> have looked at it: \<open>None\<close> stands for an absent,
  \<open>null\<close> or \<open>undefined\<close> field (or element), \<open>Some s\<close> for a value whose string
  rendering is \<open>s\<close>.
\<close>

record raw_item =
  ri_message :: "jsstring option"
  ri_keyword :: "jsstring option"

record item =
  message :: jsstring
  keyword :: jsstring

text \<open>
  The multipart field \<open>payload\<close> as the handler sees it: not a file; a request or a
  file for which \<open>req.formData()\<close>, \<open>JSON.parse\<close> or the access \<open>payload.items\<close> throws
  (a body that is no form, text that is no JSON, the JSON value \<open>null\<close>), with the
  exception's message; a parsed value whose \<open>items\<close> is not an array (absent included); a
  parsed value with an \<open>items\<close> array.
\<close>

datatype payload =
    NotAFile
  | Throws jsstring
  | ItemsNotArray
  | ItemsArray "raw_item list"

text \<open>The request body of one generation task and the JSONL record wrapping it.\<close>

record gen_body =
  gb_model :: jsstring
  gb_prompt :: jsstring
  gb_size :: jsstring
  gb_n :: nat
  gb_background :: jsstring
  gb_output_format :: jsstring
  gb_quality :: jsstring

record request_line =
  rl_custom_id :: jsstring
  rl_method :: jsstring
  rl_url :: jsstring
  rl_body :: gen_body

text \<open>
  One line of a job's output file as the result scan sees it: \<open>JSON.parse\<close> or the access
  to \<open>obj.custom_id\<close> throws, or there is a value whose \<open>custom_id\<close> is the string \<open>s\<close>
  (\<open>Some s\<close>) or not a string, and whose \<open>response.body.data[0].b64_json\<close> is a string or
  not.
\<close>

datatype parsed_line =
    Unparsable
  | Parsed (pl_custom_id: "jsstring option") (pl_b64_json: "jsstring option")

text \<open>
  The environment of the handlers: the settings read from the process environment, the
  pure text assembly the routes do (\<open>buildPrompt\<close>, \<open>JSON.stringify\<close>, \<open>JSON.parse\<close>), the
  clock and the random suffix, the upstream service (the answer to the \<open>k\<close>-th status query
  may differ from the one before), and the base64 and PNG codecs of the platform.
\<close>

record env =
  OPENAI_API_KEY :: "jsstring option"
  IMAGE_MODEL :: jsstring
  IMAGE_QUALITY :: jsstring
  USE_BATCH :: bool
  BATCH_POLL_TIMEOUT_MS :: nat
  BATCH_POLL_INTERVAL_MS :: nat
  buildPrompt :: "jsstring \<Rightarrow> jsstring \<Rightarrow> jsstring"
  stringify :: "request_line \<Rightarrow> jsstring"
  JSON_parse :: "jsstring \<Rightarrow> parsed_line"
  Date_now :: nat
  random_hex :: jsstring
  upload :: "jsstring \<Rightarrow> fetched"
  create_batch :: "jsstring \<Rightarrow> fetched"
  query_status :: "nat \<Rightarrow> jsstring \<Rightarrow> fetched"
  fetch_content :: "jsstring \<Rightarrow> fetched"
  generate_direct :: "gen_body \<Rightarrow> fetched"
  from_base64 :: "jsstring \<Rightarrow> bytes"
  to_base64 :: "bytes \<Rightarrow> jsstring"
  PNG_read :: "bytes \<Rightarrow> png option"
  PNG_write :: "png \<Rightarrow> bytes"

text \<open>\<open>!OPENAI_API_KEY\<close>: unset or the empty string.\<close>

definition key_missing :: "jsstring option \<Rightarrow> bool" where
  "key_missing k \<longleftrightarrow> (case k of None \<Rightarrow> True | Some s \<Rightarrow> s = [])"

text \<open>The message of the errors thrown (or answered) on a non-success upstream response.\<close>

definition upstream_error :: "string \<Rightarrow> response \<Rightarrow> jsstring" where
  "upstream_error what r =
     lit what @ lit '' ('' @ String_of_nat (status r) @ lit ''): '' @ slice0 200 (text_body r)"

definition generation_body :: "env \<Rightarrow> jsstring \<Rightarrow> gen_body" where
  "generation_body e prompt =
     \<lparr>gb_model = IMAGE_MODEL e, gb_prompt = prompt, gb_size = lit ''1024x1024'', gb_n = 1,
      gb_background = lit ''transparent'', gb_output_format = lit ''png'',
      gb_quality = IMAGE_QUALITY e\<rparr>"

definition batch_line :: "jsstring \<Rightarrow> gen_body \<Rightarrow> request_line" where
  "batch_line cid b =
     \<lparr>rl_custom_id = cid, rl_method = lit ''POST'', rl_url = lit ''/v1/images/generations'',
      rl_body = b\<rparr>"

section \<open>Batch submission: \<open>POST /api/batch-csv\<close>\<close>

definition normalise_item :: "raw_item \<Rightarrow> item" where
  "normalise_item x =
     \<lparr>message = trim (case ri_message x of None \<Rightarrow> [] | Some s \<Rightarrow> s),
      keyword = trim (case ri_keyword x of None \<Rightarrow> [] | Some s \<Rightarrow> s)\<rparr>"

definition items_of :: "raw_item list \<Rightarrow> item list" where
  "items_of itemsIn = filter (\<lambda>x. length (message x) > 0) (map normalise_item itemsIn)"

definition custom_id_of :: "nat \<Rightarrow> nat \<Rightarrow> jsstring" where
  "custom_id_of ts i =
     lit ''csv-'' @ String_of_nat ts @ lit ''-'' @ padStart 4 0x30 (String_of_nat (i + 1))"

definition line_of :: "env \<Rightarrow> jsstring \<Rightarrow> item \<Rightarrow> request_line" where
  "line_of e cid it =
     batch_line cid (generation_body e (buildPrompt e (message it) (keyword it)))"

text \<open>
  The \<open>for (let i = 0; i < items.length; i++)\<close> loop, pushing one record onto
  \<open>lines\<close> and one onto \<open>outItems\<close> per round.
\<close>

function assign_loop ::
  "env \<Rightarrow> nat \<Rightarrow> item list \<Rightarrow> nat \<Rightarrow> out_item list \<Rightarrow> request_line list
    \<Rightarrow> out_item list \<times> request_line list" where
  "assign_loop e ts items i outItems lines =
     (if i < length items then
        let custom_id = custom_id_of ts i;
            it = items ! i
        in assign_loop e ts items (i + 1)
             (outItems @ [\<lparr>oi_custom_id = custom_id, oi_message = message it,
                           oi_keyword = keyword it\<rparr>])
             (lines @ [line_of e custom_id it])
      else (outItems, lines))"
  by pat_completeness auto
termination
  by (relation "measure (\<lambda>(e, ts, items, i, outItems, lines). length items - i)") auto

declare assign_loop.simps [simp del]

text \<open>\<open>e?.message ? String(e.message) : "Unknown error"\<close> of the handler's \<open>catch\<close>.\<close>

definition caught_message :: "jsstring \<Rightarrow> jsstring" where
  "caught_message m = (if m = [] then lit ''Unknown error'' else m)"

definition csv_POST :: "env \<Rightarrow> payload \<Rightarrow> reply \<times> upstream_call list" where
  "csv_POST e pl =
     (if key_missing (OPENAI_API_KEY e) then
        (json_reply (ErrorBody (lit ''OPENAI_API_KEY is not set on the server.'')) 500, [])
      else case pl of
        NotAFile \<Rightarrow>
          (json_reply (ErrorBody (lit ''Missing payload (multipart form field 'payload').'')) 400, [])
      | Throws m \<Rightarrow> (json_reply (ErrorBody (caught_message m)) 500, [])
      | _ \<Rightarrow>
        let itemsIn = (case pl of ItemsArray xs \<Rightarrow> xs | _ \<Rightarrow> []);
            items = items_of itemsIn
        in if length items = 0 then
             (json_reply (ErrorBody (lit ''No valid items in payload.'')) 400, [])
           else
             let ts = Date_now e;
                 (outItems, lines) = assign_loop e ts items 0 [] [];
                 jsonl = join (lit [CHR 0x0A]) (map (stringify e) lines) @ lit [CHR 0x0A]
             in case upload e jsonl of
                  Rejected m \<Rightarrow> (json_reply (ErrorBody (caught_message m)) 500, [UploadFile jsonl])
                | Resp upRes \<Rightarrow>
                    if \<not> ok upRes then
                      (json_reply (ErrorBody (upstream_error ''OpenAI file upload failed'' upRes)) 502,
                       [UploadFile jsonl])
                    else
                      case create_batch e (json_id upRes) of
                        Rejected m \<Rightarrow>
                          (json_reply (ErrorBody (caught_message m)) 500,
                           [UploadFile jsonl, CreateBatch (json_id upRes)])
                      | Resp batchRes \<Rightarrow>
                          if \<not> ok batchRes then
                            (json_reply
                               (ErrorBody (upstream_error ''OpenAI batch create failed'' batchRes)) 502,
                             [UploadFile jsonl, CreateBatch (json_id upRes)])
                          else
                            (json_reply (BatchCreated (json_id batchRes) outItems) 200,
                             [UploadFile jsonl, CreateBatch (json_id upRes)]))"

section \<open>Result fetch: \<open>tryGetBatchResultImageBase64\<close>\<close>

text \<open>\<open>text.split(/\r?\n/)\<close>: cut at every line feed, dropping a carriage return right before it.\<close>

fun split_lines :: "jsstring \<Rightarrow> jsstring \<Rightarrow> jsstring list" where
  "split_lines cur [] = [rev cur]"
| "split_lines cur [c] = (if c = 0x0A then [rev cur, []] else [rev (c # cur)])"
| "split_lines cur (c # c' # cs) =
     (if c = 0x0A then rev cur # split_lines [] (c' # cs)
      else if c = 0x0D \<and> c' = 0x0A then rev cur # split_lines [] cs
      else split_lines (c # cur) (c' # cs))"

text \<open>The \<open>for (const line of lines)\<close> scan; an exception inside the \<open>try\<close> skips the line.\<close>

fun scan_lines :: "(jsstring \<Rightarrow> parsed_line) \<Rightarrow> jsstring \<Rightarrow> jsstring list \<Rightarrow> jsstring option" where
  "scan_lines parse customId [] = None"
| "scan_lines parse customId (line # lines) =
     (case parse line of
        Unparsable \<Rightarrow> scan_lines parse customId lines
      | Parsed cid b64 \<Rightarrow>
          if cid \<noteq> Some customId then scan_lines parse customId lines
          else (case b64 of
                  Some s \<Rightarrow> if length s > 0 then Some s else scan_lines parse customId lines
                | None \<Rightarrow> scan_lines parse customId lines))"

datatype poll_result = NotDone jsstring | Done jsstring

text \<open>
  The function returns (\<open>Inr\<close>) or throws an \<open>Error\<close> with a message (\<open>Inl\<close>); the second
  component lists the upstream requests it made. \<open>k\<close> numbers the status query.
\<close>

definition tryGetBatchResultImageBase64 ::
  "env \<Rightarrow> nat \<Rightarrow> jsstring \<Rightarrow> jsstring \<Rightarrow> (jsstring + poll_result) \<times> upstream_call list" where
  "tryGetBatchResultImageBase64 e k batchId customId =
     (case query_status e k batchId of
        Rejected m \<Rightarrow> (Inl m, [QueryStatus batchId])
      | Resp stRes \<Rightarrow>
          if \<not> ok stRes then
            (Inl (upstream_error ''OpenAI batch status failed'' stRes), [QueryStatus batchId])
          else if json_status stRes \<noteq> lit ''completed'' then
            (Inr (NotDone (json_status stRes)), [QueryStatus batchId])
          else
            case json_output_file_id stRes of
              None \<Rightarrow> (Inl (lit ''Batch completed but output_file_id is missing.''),
                        [QueryStatus batchId])
            | Some outId \<Rightarrow>
                if outId = [] then
                  (Inl (lit ''Batch completed but output_file_id is missing.''),
                   [QueryStatus batchId])
                else
                  case fetch_content e outId of
                    Rejected m \<Rightarrow> (Inl m, [QueryStatus batchId, FetchContent outId])
                  | Resp outRes \<Rightarrow>
                      if \<not> ok outRes then
                        (Inl (upstream_error ''OpenAI batch output fetch failed'' outRes),
                         [QueryStatus batchId, FetchContent outId])
                      else
                        let lines = filter (\<lambda>l. l \<noteq> []) (split_lines [] (text_body outRes))
                        in case scan_lines (JSON_parse e) customId lines of
                             Some b64 \<Rightarrow>
                               (Inr (Done b64), [QueryStatus batchId, FetchContent outId])
                           | None \<Rightarrow>
                               (Inl (lit ''Batch completed but no matching image result was found.''),
                                [QueryStatus batchId, FetchContent outId]))"

section \<open>Post-processing of a returned image\<close>

text \<open>
  A call either throws or returns; the outer \<open>option\<close> of the functions below is \<open>None\<close>
  when the call does not return at all.
\<close>

datatype 'a attempt = Thrown | Returned 'a

definition makeInteriorOpaquePngBase64 :: "env \<Rightarrow> jsstring \<Rightarrow> jsstring attempt option" where
  "makeInteriorOpaquePngBase64 e b64 =
     (case PNG_read e (from_base64 e b64) of
        None \<Rightarrow> Some Thrown
      | Some png \<Rightarrow>
          (case alpha_normalise png of
             None \<Rightarrow> None
           | Some out \<Rightarrow> Some (Returned (to_base64 e (PNG_write e out)))))"

definition OUTPUT_WIDTH :: nat where
  "OUTPUT_WIDTH = 370"

definition OUTPUT_HEIGHT :: nat where
  "OUTPUT_HEIGHT = 320"

text \<open>
  \<open>new PNG({ width, height })\<close> allocates the buffer only when both are positive and leaves
  \<open>data\<close> \<open>null\<close> otherwise, so that \<open>dst.data.fill(0)\<close> throws on an empty target.
\<close>

definition resizeContainBilinear :: "env \<Rightarrow> png \<Rightarrow> nat \<Rightarrow> nat \<Rightarrow> bytes attempt" where
  "resizeContainBilinear e srcPng dstW dstH =
     (if dstW = 0 \<or> dstH = 0 then Thrown
      else Returned (PNG_write e (resize_canvas srcPng dstW dstH)))"

text \<open>The second \<open>try\<close> of the handlers: decode and resize, or keep the buffer as it is.\<close>

definition resize_stage :: "env \<Rightarrow> bytes \<Rightarrow> bytes" where
  "resize_stage e pngBuf =
     (case PNG_read e pngBuf of
        None \<Rightarrow> pngBuf
      | Some srcPng \<Rightarrow>
          (case resizeContainBilinear e srcPng OUTPUT_WIDTH OUTPUT_HEIGHT of
             Thrown \<Rightarrow> pngBuf
           | Returned outBuf \<Rightarrow> outBuf))"

text \<open>The tail both \<open>GET\<close> handlers share once they hold the base64 image \<open>b64\<close>.\<close>

definition respond_with_image :: "env \<Rightarrow> jsstring \<Rightarrow> reply option" where
  "respond_with_image e b64 =
     (case makeInteriorOpaquePngBase64 e b64 of
        None \<Rightarrow> None
      | Some r \<Rightarrow>
          let b64Fixed = (case r of Thrown \<Rightarrow> b64 | Returned fixed \<Rightarrow> fixed);
              pngBuf = from_base64 e b64Fixed;
              outBuf = resize_stage e pngBuf
          in Some \<lparr>code = 200, body = ImageBody outBuf\<rparr>)"

section \<open>Polling endpoint: \<open>GET /api/batch\<close>\<close>

definition batch_GET :: "env \<Rightarrow> jsstring option \<Rightarrow> jsstring option \<Rightarrow> reply option" where
  "batch_GET e batch_id_param custom_id_param =
     (if key_missing (OPENAI_API_KEY e) then
        Some (json_reply (ErrorBody (lit ''OPENAI_API_KEY is not set on the server.'')) 500)
      else
        let batchId = (case batch_id_param of None \<Rightarrow> [] | Some s \<Rightarrow> s);
            customId = (case custom_id_param of None \<Rightarrow> [] | Some s \<Rightarrow> s)
        in if batchId = [] \<or> customId = [] then
             Some (json_reply (ErrorBody (lit ''batch_id and custom_id are required.'')) 400)
           else
             case fst (tryGetBatchResultImageBase64 e 0 batchId customId) of
               Inl err \<Rightarrow>
                 Some (json_reply (ErrorBody (lit ''Unexpected server error in /api/batch'')) 500)
             | Inr (NotDone st) \<Rightarrow> Some (json_reply (PendingBody batchId customId) 202)
             | Inr (Done b64) \<Rightarrow> respond_with_image e b64)"

section \<open>Single image endpoint: \<open>GET /api/generate\<close>\<close>

definition createSingleImageBatch :: "env \<Rightarrow> gen_body \<Rightarrow> jsstring + jsstring \<times> jsstring" where
  "createSingleImageBatch e b =
     (let customId = lit ''gen-'' @ String_of_nat (Date_now e) @ lit ''-'' @ random_hex e;
          jsonlLine = stringify e (batch_line customId b) @ lit [CHR 0x0A]
      in case upload e jsonlLine of
           Rejected m \<Rightarrow> Inl m
         | Resp upRes \<Rightarrow>
             if \<not> ok upRes then Inl (upstream_error ''OpenAI file upload failed'' upRes)
             else
               case create_batch e (json_id upRes) of
                 Rejected m \<Rightarrow> Inl m
               | Resp batchRes \<Rightarrow>
                   if \<not> ok batchRes then
                     Inl (upstream_error ''OpenAI batch create failed'' batchRes)
                   else Inr (json_id batchRes, customId))"

text \<open>
  \<open>setTimeout(res, ms)\<close> fires after \<open>ms\<close> milliseconds; Node.js sets a delay below 1 or
  above \<open>2^31 - 1\<close> to 1.
\<close>

definition timer_delay :: "nat \<Rightarrow> nat" where
  "timer_delay ms = (if ms < 1 \<or> ms > 2147483647 then 1 else ms)"

text \<open>
  The bounded poll loop on a clock that only the sleeps advance (a status query takes no
  time). \<open>poll k\<close> is what the \<open>k\<close>-th call of the result fetch does: throw or return. The loop
  ends with an exception (\<open>Inl\<close>), with the image (\<open>Inr (Some b64)\<close>) or with \<open>b64\<close> still
  unset (\<open>Inr None\<close>); the second component is the clock at that moment.
\<close>

function poll_loop ::
  "nat \<Rightarrow> nat \<Rightarrow> (nat \<Rightarrow> jsstring + poll_result) \<Rightarrow> nat \<Rightarrow> nat \<Rightarrow> nat
    \<Rightarrow> (jsstring + jsstring option) \<times> nat" where
  "poll_loop timeoutMs intervalMs poll started now k =
     (if now - started < timeoutMs then
        (case poll k of
           Inl err \<Rightarrow> (Inl err, now)
         | Inr (Done b64) \<Rightarrow> (Inr (Some b64), now)
         | Inr (NotDone st) \<Rightarrow>
             poll_loop timeoutMs intervalMs poll started (now + timer_delay intervalMs) (k + 1))
      else (Inr None, now))"
  by pat_completeness auto
termination
  by (relation "measure (\<lambda>(timeoutMs, intervalMs, poll, started, now, k).
        timeoutMs + started - now)")
    (auto simp: timer_delay_def)

declare poll_loop.simps [simp del]

definition generate_GET :: "env \<Rightarrow> jsstring \<Rightarrow> jsstring \<Rightarrow> reply option" where
  "generate_GET e msg kw =
     (if key_missing (OPENAI_API_KEY e) then
        Some (json_reply (ErrorBody (lit ''OPENAI_API_KEY is not set on the server.'')) 500)
      else
        let requestBody = generation_body e (buildPrompt e msg kw);
            failed = Some (json_reply
                       (ErrorBody (lit ''Unexpected server error in /api/generate'')) 500)
        in if USE_BATCH e then
             (case createSingleImageBatch e requestBody of
                Inl err \<Rightarrow> failed
              | Inr (batch_id, custom_id) \<Rightarrow>
                  (case fst (poll_loop (BATCH_POLL_TIMEOUT_MS e) (BATCH_POLL_INTERVAL_MS e)
                              (\<lambda>k. fst (tryGetBatchResultImageBase64 e k batch_id custom_id))
                              (Date_now e) (Date_now e) 0) of
                     Inl err \<Rightarrow> failed
                   | Inr None \<Rightarrow> Some (json_reply (PendingBody batch_id custom_id) 202)
                   | Inr (Some b64) \<Rightarrow>
                       if b64 = [] then Some (json_reply (PendingBody batch_id custom_id) 202)
                       else respond_with_image e b64))
           else
             (case generate_direct e requestBody of
                Rejected m \<Rightarrow> failed
              | Resp apiRes \<Rightarrow>
                  if \<not> ok apiRes then
                    Some (json_reply
                      (ErrorBody (lit ''OpenAI error (status '' @ String_of_nat (status apiRes)
                                  @ lit ''): '' @ slice0 160 (text_body apiRes))) 500)
                  else
                    (case json_b64 apiRes of
                       None \<Rightarrow> Some (json_reply
                                 (ErrorBody (lit ''No image data returned from API'')) 500)
                     | Some b64 \<Rightarrow>
                         if b64 = [] then
                           Some (json_reply
                                 (ErrorBody (lit ''No image data returned from API'')) 500)
                         else respond_with_image e b64)))"


definition blank :: "jsstring \<Rightarrow> bool" where
  "blank s \<longleftrightarrow> (\<forall>c \<in> set s. is_ws c)"

definition raw_message :: "raw_item \<Rightarrow> jsstring" where
  "raw_message x = (case ri_message x of None \<Rightarrow> [] | Some s \<Rightarrow> s)"

definition raw_keyword :: "raw_item \<Rightarrow> jsstring" where
  "raw_keyword x = (case ri_keyword x of None \<Rightarrow> [] | Some s \<Rightarrow> s)"

definition newline :: jsstring where
  "newline = lit [CHR 0x0A]"

definition matching :: "(jsstring \<Rightarrow> parsed_line) \<Rightarrow> jsstring \<Rightarrow> jsstring \<Rightarrow> jsstring option" where
  "matching parse customId line =
     (case parse line of
        Unparsable \<Rightarrow> None
      | Parsed cid b64 \<Rightarrow>
          (case b64 of
             None \<Rightarrow> None
           | Some s \<Rightarrow> if cid = Some customId \<and> s \<noteq> [] then Some s else None))"

definition records :: "jsstring \<Rightarrow> jsstring list" where
  "records txt = filter (\<lambda>l. l \<noteq> []) (split_lines [] txt)"

definition same_id :: "(jsstring \<Rightarrow> parsed_line) \<Rightarrow> jsstring \<Rightarrow> jsstring \<Rightarrow> bool" where
  "same_id parse customId line =
     (case parse line of Unparsable \<Rightarrow> False | Parsed cid b64 \<Rightarrow> cid = Some customId)"


text \<open>
  The diagnostic of a non-success upstream response: the failed step, the status code and
  the first 200 code units of the body.
\<close>

definition diagnostic :: "string \<Rightarrow> response \<Rightarrow> jsstring" where
  "diagnostic step r =
     lit step @ lit '' ('' @ String_of_nat (status r) @ lit ''): '' @ take 200 (text_body r)"






definition phase1_post :: "png \<Rightarrow> png \<Rightarrow> bool" where
  "phase1_post img out \<longleftrightarrow>
     width out = width img \<and> height out = height img \<and>
     length (data out) = length (data img) \<and>
     (\<forall>j < length (data img). data out ! j =
        (if transparent (data img) (j div 4) \<and>
            \<not> border_connected (width img) (height img) (data img) (j div 4)
         then 255 else data img ! j))"

definition phase2_post :: "png \<Rightarrow> png \<Rightarrow> bool" where
  "phase2_post img out \<longleftrightarrow>
     width out = width img \<and> height out = height img \<and>
     length (data out) = length (data img) \<and>
     (\<forall>j < length (data img). data out ! j =
        (if j mod 4 = 3 \<and> opaque (data img) (j div 4) \<and>
            \<not> near (width img) (height img) (data img) 2 (j div 4)
         then 255 else data img ! j))"

section \<open>Concrete inputs used in the worked examples\<close>

definition ring_png :: png where
  "ring_png = \<lparr>width = 3, height = 3,
     data = [9, 9, 9, 0,        10, 20, 30, 200,  10, 20, 30, 200,
             10, 20, 30, 200,   1, 2, 3, 0,       10, 20, 30, 200,
             10, 20, 30, 200,   10, 20, 30, 200,  10, 20, 30, 200]\<rparr>"

definition slab_png :: png where
  "slab_png = \<lparr>width = 7, height = 7, data = concat (replicate 49 [10, 20, 30, 100])\<rparr>"

definition ok_response :: response where
  "ok_response = \<lparr>ok = True, status = 200, text_body = [], json_id = lit ''file-1'',
     json_status = lit ''in_progress'', json_output_file_id = None, json_b64 = None\<rparr>"

definition env0 :: env where
  "env0 = \<lparr>OPENAI_API_KEY = Some (lit ''sk''), IMAGE_MODEL = lit ''gpt-image-1.5'',
     IMAGE_QUALITY = lit ''low'', USE_BATCH = True,
     BATCH_POLL_TIMEOUT_MS = 25000, BATCH_POLL_INTERVAL_MS = 2000,
     buildPrompt = (\<lambda>m k. m), stringify = rl_custom_id,
     JSON_parse = (\<lambda>l. if l = lit ''c1 X'' then Parsed (Some (lit ''c1'')) (Some (lit ''X''))
                        else if l = lit ''c1'' then Parsed (Some (lit ''c1'')) None
                        else Unparsable),
     Date_now = 7, random_hex = lit ''ab'',
     upload = (\<lambda>j. Resp ok_response),
     create_batch = (\<lambda>i. Resp (ok_response\<lparr>json_id := lit ''batch-1''\<rparr>)),
     query_status = (\<lambda>k b. Resp (if k < 2 then ok_response
        else ok_response\<lparr>json_status := lit ''completed'',
                          json_output_file_id := Some (lit ''out-1'')\<rparr>)),
     fetch_content = (\<lambda>i. Resp (ok_response\<lparr>text_body :=
        lit ''junk'' @ newline @ lit ''c1'' @ [0x0D] @ newline @ lit ''c1 X'' @ newline\<rparr>)),
     generate_direct = (\<lambda>b. Rejected []),
     from_base64 = map ucast, to_base64 = map ucast,
     PNG_read = (\<lambda>b. if b = [1] then Some ring_png else None),
     PNG_write = data\<rparr>"

definition items0 :: "raw_item list" where
  "items0 = [\<lparr>ri_message = Some (lit '' a ''), ri_keyword = None\<rparr>,
             \<lparr>ri_message = Some (lit ''  ''), ri_keyword = Some (lit ''x'')\<rparr>,
             \<lparr>ri_message = None, ri_keyword = None\<rparr>,
             \<lparr>ri_message = Some (lit ''b''), ri_keyword = Some (lit ''cat'')\<rparr>]"

definition env_no_key :: env where
  "env_no_key = env0\<lparr>OPENAI_API_KEY := None\<rparr>"

definition env_status_down :: env where
  "env_status_down = env0\<lparr>query_status := (\<lambda>k b. Resp (ok_response\<lparr>ok := False, status := 503,
      text_body := lit ''boom''\<rparr>))\<rparr>"

definition env_upload_down :: env where
  "env_upload_down = env0\<lparr>upload := (\<lambda>j. Resp (ok_response\<lparr>ok := False, status := 429,
      text_body := lit ''quota''\<rparr>))\<rparr>"

definition env_pending :: env where
  "env_pending = env0\<lparr>query_status := (\<lambda>k b. Resp ok_response)\<rparr>"

definition env_done :: env where
  "env_done = env0\<lparr>query_status := (\<lambda>k b. Resp (ok_response\<lparr>json_status := lit ''completed'',
      json_output_file_id := Some (lit ''out-1'')\<rparr>))\<rparr>"

definition ring_filled :: bytes where
  "ring_filled = [9, 9, 9, 0, 10, 20, 30, 200, 10, 20, 30, 200, 10, 20, 30, 200,
       255, 255, 255, 255, 10, 20, 30, 200, 10, 20, 30, 200, 10, 20, 30, 200, 10, 20, 30, 200]"

definition white4 :: png where
  "white4 = \<lparr>width = 4, height = 4, data = replicate 64 255\<rparr>"


definition env_create_down :: env where
  "env_create_down = env0\<lparr>create_batch := (\<lambda>i. Resp (ok_response\<lparr>ok := False, status := 500,
      text_body := replicate 250 0x78\<rparr>))\<rparr>"

definition env_fetch_down :: env where
  "env_fetch_down = env_done\<lparr>fetch_content := (\<lambda>i. Resp (ok_response\<lparr>ok := False, status := 404,
      text_body := lit ''gone''\<rparr>))\<rparr>"

definition env_late_down :: env where
  "env_late_down = env0\<lparr>query_status := (\<lambda>k b. Resp (if k < 2 then ok_response
      else ok_response\<lparr>ok := False, status := 503, text_body := lit ''boom''\<rparr>))\<rparr>"


lemma flood_ext_refl: "flood_ext s s"
  by (simp add: flood_ext_def)

lemma flood_ext_trans: "flood_ext s s' \<Longrightarrow> flood_ext s' s'' \<Longrightarrow> flood_ext s s''"
  by (auto simp: flood_ext_def)

lemma border_reach_props: "border_reach w h d n p \<Longrightarrow> p < w * h \<and> transparent d p"
  by (induction n) auto

lemma border_connected_props: "border_connected w h d p \<Longrightarrow> p < w * h \<and> transparent d p"
  by (auto simp: border_connected_def dest: border_reach_props)

lemma coord_mod: "x < w \<Longrightarrow> (y * w + x) mod w = (x::nat)"
  by simp

lemma coord_div: "x < w \<Longrightarrow> (y * w + x) div w = (y::nat)"
  by simp

lemma coord_lt: "x < w \<Longrightarrow> y < h \<Longrightarrow> y * w + x < w * (h::nat)"
proof -
  assume a: "x < w" "y < h"
  then have "y * w + x < y * w + w" by simp
  also have "\<dots> = (y + 1) * w" by simp
  also have "\<dots> \<le> h * w" using a by (intro mult_le_mono1) simp
  finally show ?thesis by (simp add: mult.commute)
qed

lemma div_lt_height: "p < w * h \<Longrightarrow> p div w < (h::nat)"
  by (simp add: less_mult_imp_div_less mult.commute)

lemma push_new:
  assumes inv: "flood_inv w h d s" and xy: "x < w" "y < h"
    and tr: "transparent d (y * w + x)" and nm: "\<not> marked s (y * w + x)"
    and bc: "border_connected w h d (y * w + x)"
  shows "flood_inv w h d (pushIfTransparent w d x y s)"
    and "flood_ext s (pushIfTransparent w d x y s)"
    and "marked (pushIfTransparent w d x y s) (y * w + x)"
proof -
  define p where "p = y * w + x"
  define s' where "s' = pushIfTransparent w d x y s"
  have plt: "p < w * h" unfolding p_def using xy by (rule coord_lt)
  have len: "length (bg s) = w * h" "length (q2 s) = w * h" "h2 s \<le> t2 s" "t2 s \<le> w * h"
    and dis: "distinct (take (t2 s) (q2 s))"
    and qs: "\<And>r. r \<in> set (take (t2 s) (q2 s)) \<longleftrightarrow> marked s r"
    and snd: "\<And>r. marked s r \<Longrightarrow> border_connected w h d r"
    using inv by (auto simp: flood_inv_def)
  have eq: "bg s' = (bg s)[p := 1]" "q2 s' = (q2 s)[t2 s := p]" "t2 s' = Suc (t2 s)"
    "h2 s' = h2 s"
    using tr nm unfolding s'_def p_def
    by (auto simp: pushIfTransparent_def Let_def transparent_def marked_def)
  have notin: "p \<notin> set (take (t2 s) (q2 s))" using nm by (simp add: qs p_def)
  have sub: "set (take (t2 s) (q2 s)) \<subseteq> {0..<w * h}"
    using len by (auto simp: qs marked_def)
  have "insert p (set (take (t2 s) (q2 s))) \<subseteq> {0..<w * h}" using sub plt by auto
  then have "card (insert p (set (take (t2 s) (q2 s)))) \<le> card {0..<w * h}"
    by (intro card_mono) auto
  moreover have "card (set (take (t2 s) (q2 s))) = t2 s"
    using dis len by (simp add: distinct_card)
  ultimately have tlt: "t2 s < w * h" using notin by simp
  have tk: "take (t2 s') (q2 s') = take (t2 s) (q2 s) @ [p]"
    using tlt len by (simp add: eq take_Suc_conv_app_nth)
  have mk: "\<And>r. marked s' r \<longleftrightarrow> r = p \<or> marked s r"
    using plt len by (auto simp: marked_def eq nth_list_update)
  have "length (bg s') = w * h" "length (q2 s') = w * h" "h2 s' \<le> t2 s'" "t2 s' \<le> w * h"
    using len tlt by (simp_all add: eq)
  moreover have "distinct (take (t2 s') (q2 s'))" using dis notin by (simp add: tk)
  moreover have "\<forall>r. r \<in> set (take (t2 s') (q2 s')) \<longleftrightarrow> marked s' r"
    by (auto simp: tk mk qs)
  moreover have "\<forall>r. marked s' r \<longrightarrow> border_connected w h d r"
    using snd bc by (auto simp: mk p_def)
  ultimately show "flood_inv w h d (pushIfTransparent w d x y s)"
    unfolding flood_inv_def s'_def[symmetric] by blast
  have "\<forall>i < t2 s. q2 s' ! i = q2 s ! i" by (simp add: eq)
  then show "flood_ext s (pushIfTransparent w d x y s)"
    unfolding flood_ext_def s'_def[symmetric] by (simp add: mk eq)
  show "marked (pushIfTransparent w d x y s) (y * w + x)"
    unfolding s'_def[symmetric] p_def[symmetric] by (simp add: mk)
qed

lemma push_old:
  assumes "\<not> transparent d (y * w + x) \<or> marked s (y * w + x)"
  shows "pushIfTransparent w d x y s = s"
  using assms by (auto simp: pushIfTransparent_def Let_def transparent_def marked_def)

lemma push_inv:
  assumes inv: "flood_inv w h d s" and xy: "x < w" "y < h"
    and bc: "transparent d (y * w + x) \<Longrightarrow> border_connected w h d (y * w + x)"
  shows "flood_inv w h d (pushIfTransparent w d x y s)
       \<and> flood_ext s (pushIfTransparent w d x y s)
       \<and> (transparent d (y * w + x) \<longrightarrow> marked (pushIfTransparent w d x y s) (y * w + x))"
proof (cases "transparent d (y * w + x) \<and> \<not> marked s (y * w + x)")
  case True
  then show ?thesis using push_new[OF inv xy] bc by blast
next
  case False
  then have "pushIfTransparent w d x y s = s" by (intro push_old) blast
  then show ?thesis using inv False by (auto simp: flood_ext_refl)
qed

lemma flood_inv_ext_closed:
  assumes "flood_closed w h d s" "flood_ext s s'" "h2 s \<le> t2 s"
  shows "flood_closed w h d s'"
  using assms unfolding flood_closed_def flood_ext_def
  by (metis less_le_trans)

lemma flood_ext_seeded:
  assumes "flood_seeded w h d s" "flood_ext s s'"
  shows "flood_seeded w h d s'"
  using assms unfolding flood_seeded_def flood_ext_def by blast

lemma push_guarded:
  assumes inv: "flood_inv w h d s"
    and g: "g \<Longrightarrow> x < w \<and> y < h"
    and bc: "g \<Longrightarrow> transparent d (y * w + x) \<Longrightarrow> border_connected w h d (y * w + x)"
  shows "flood_inv w h d (if g then pushIfTransparent w d x y s else s)
       \<and> flood_ext s (if g then pushIfTransparent w d x y s else s)
       \<and> (g \<and> transparent d (y * w + x)
            \<longrightarrow> marked (if g then pushIfTransparent w d x y s else s) (y * w + x))"
proof (cases g)
  case True
  then show ?thesis using push_inv[OF inv, of x y] g bc by simp
next
  case False
  then show ?thesis using inv by (simp add: flood_ext_refl)
qed

lemma fold_upt_inv:
  assumes "P 0 s" and "\<And>i s. i < n \<Longrightarrow> P i s \<Longrightarrow> P (Suc i) (f i s)"
  shows "P n (fold f [0..<n] s)"
  using assms
proof (induction n)
  case 0
  then show ?case by simp
next
  case (Suc n)
  have "P n (fold f [0..<n] s)" using Suc by simp
  then show ?case using Suc.prems(2)[of n] by simp
qed

lemma on_border_coord:
  "x < w \<Longrightarrow> on_border w h (y * w + x) \<longleftrightarrow> x = 0 \<or> x + 1 = w \<or> y = 0 \<or> y + 1 = h"
  by (simp only: on_border_def coord_mod coord_div)

lemma border_seed_coord:
  assumes "x < w" "y < h" "x = 0 \<or> x + 1 = w \<or> y = 0 \<or> y + 1 = h"
    and "transparent d (y * w + x)"
  shows "border_connected w h d (y * w + x)"
  unfolding border_connected_def
  using assms coord_lt[of x w y h] on_border_coord[of x w h y]
  by (intro exI[of _ 0]) (simp del: mult_Suc)

lemma border_seed:
  "p < w * h \<Longrightarrow> transparent d p \<Longrightarrow> on_border w h p \<Longrightarrow> border_connected w h d p"
  unfolding border_connected_def by (rule exI[of _ 0]) simp

lemma border_step:
  assumes "border_connected w h d p" "r < w * h" "transparent d r" "adj4 w p r"
  shows "border_connected w h d r"
proof -
  from assms(1) obtain n where n: "border_reach w h d n p"
    by (auto simp: border_connected_def)
  then have "p < w * h" by (simp add: border_reach_props)
  then have "border_reach w h d (Suc n) r"
    using n assms by (auto simp: list_ex_iff)
  then show ?thesis unfolding border_connected_def by blast
qed

lemma rows_done_ext:
  assumes "rows_done w h d n s" "flood_ext s s'" "flood_inv w h d s'"
  shows "rows_done w h d n s'"
  using assms unfolding rows_done_def flood_ext_def by auto

lemma seed_rows_step:
  assumes wh: "0 < w" "0 < h" and i: "i < w" and P: "rows_done w h d i s"
  shows "rows_done w h d (Suc i)
           (let s' = pushIfTransparent w d i 0 s
            in if h = 0 then s' else pushIfTransparent w d i (h - 1) s')"
proof -
  define s1 where "s1 = pushIfTransparent w d i 0 s"
  define s2 where "s2 = pushIfTransparent w d i (h - 1) s1"
  have inv: "flood_inv w h d s" using P by (simp add: rows_done_def)
  have b1: "transparent d (0 * w + i) \<Longrightarrow> border_connected w h d (0 * w + i)"
    using wh i by (intro border_seed_coord) auto
  have 1: "flood_inv w h d s1" "flood_ext s s1"
    "transparent d (0 * w + i) \<longrightarrow> marked s1 (0 * w + i)"
    using push_inv[OF inv i wh(2) b1] unfolding s1_def by auto
  have b2: "transparent d ((h - 1) * w + i) \<Longrightarrow> border_connected w h d ((h - 1) * w + i)"
    using wh i by (intro border_seed_coord) auto
  have 2: "flood_inv w h d s2" "flood_ext s1 s2"
    "transparent d ((h - 1) * w + i) \<longrightarrow> marked s2 ((h - 1) * w + i)"
    using push_inv[OF 1(1) i, of "h - 1"] wh b2 unfolding s2_def by auto
  have e: "flood_ext s s2" using 1(2) 2(2) by (rule flood_ext_trans)
  have "rows_done w h d i s2" using P e 2(1) by (rule rows_done_ext)
  moreover have "marked s1 (0 * w + i) \<longrightarrow> marked s2 (0 * w + i)"
    using 2(2) by (simp add: flood_ext_def)
  ultimately have "rows_done w h d (Suc i) s2"
    using 1(3) 2(3) unfolding rows_done_def by (auto simp: less_Suc_eq)
  then show ?thesis using wh by (simp add: s1_def s2_def Let_def)
qed

lemma seed_cols_step:
  assumes wh: "0 < w" "0 < h" and i: "i < h" and P: "cols_done w h d i s"
  shows "cols_done w h d (Suc i)
           (let s' = pushIfTransparent w d 0 i s
            in if w = 0 then s' else pushIfTransparent w d (w - 1) i s')"
proof -
  define s1 where "s1 = pushIfTransparent w d 0 i s"
  define s2 where "s2 = pushIfTransparent w d (w - 1) i s1"
  have inv: "flood_inv w h d s" using P by (simp add: cols_done_def rows_done_def)
  have b1: "transparent d (i * w + 0) \<Longrightarrow> border_connected w h d (i * w + 0)"
    using wh i by (intro border_seed_coord) auto
  have 1: "flood_inv w h d s1" "flood_ext s s1"
    "transparent d (i * w + 0) \<longrightarrow> marked s1 (i * w + 0)"
    using push_inv[OF inv wh(1) i b1] unfolding s1_def by auto
  have b2: "transparent d (i * w + (w - 1)) \<Longrightarrow> border_connected w h d (i * w + (w - 1))"
    using wh i by (intro border_seed_coord) auto
  have 2: "flood_inv w h d s2" "flood_ext s1 s2"
    "transparent d (i * w + (w - 1)) \<longrightarrow> marked s2 (i * w + (w - 1))"
    using push_inv[OF 1(1) _ i, of "w - 1"] wh b2 unfolding s2_def by auto
  have e: "flood_ext s s2" using 1(2) 2(2) by (rule flood_ext_trans)
  have "rows_done w h d w s2" using P e 2(1) unfolding cols_done_def by (metis rows_done_ext)
  moreover have "\<And>r. marked s r \<Longrightarrow> marked s2 r" using e by (simp add: flood_ext_def)
  moreover have "marked s1 (i * w + 0) \<longrightarrow> marked s2 (i * w + 0)"
    using 2(2) by (simp add: flood_ext_def)
  ultimately have "cols_done w h d (Suc i) s2"
    using 1(3) 2(3) P unfolding cols_done_def by (auto simp: less_Suc_eq)
  then show ?thesis using wh by (simp add: s1_def s2_def Let_def)
qed

lemma flood_init_inv: "flood_inv w h d (flood_init w h)"
  by (auto simp: flood_inv_def flood_init_def marked_def)

lemma seed_done:
  assumes wh: "0 < w" "0 < h"
  shows "cols_done w h d h (seed_cols w h d (seed_rows w h d (flood_init w h)))"
proof -
  have "rows_done w h d 0 (flood_init w h)"
    by (simp add: rows_done_def flood_init_inv) (simp add: flood_init_def)
  then have "rows_done w h d w (seed_rows w h d (flood_init w h))"
    unfolding seed_rows_def
    by (rule fold_upt_inv[where P = "rows_done w h d"]) (rule seed_rows_step[OF wh])
  then have "cols_done w h d 0 (seed_rows w h d (flood_init w h))"
    by (simp add: cols_done_def)
  then show ?thesis
    unfolding seed_cols_def
    by (rule fold_upt_inv[where P = "cols_done w h d"]) (rule seed_cols_step[OF wh])
qed

lemma seeded_start:
  assumes wh: "0 < w" "0 < h" and c: "cols_done w h d h s"
  shows "flood_inv w h d s \<and> flood_closed w h d s \<and> flood_seeded w h d s"
proof -
  have inv: "flood_inv w h d s" and h0: "h2 s = 0"
    and rows: "\<And>x. x < w \<Longrightarrow> (transparent d (0 * w + x) \<longrightarrow> marked s (0 * w + x)) \<and>
              (transparent d ((h - 1) * w + x) \<longrightarrow> marked s ((h - 1) * w + x))"
    and cols: "\<And>y. y < h \<Longrightarrow> (transparent d (y * w + 0) \<longrightarrow> marked s (y * w + 0)) \<and>
              (transparent d (y * w + (w - 1)) \<longrightarrow> marked s (y * w + (w - 1)))"
    using c by (auto simp: cols_done_def rows_done_def)
  have "flood_seeded w h d s"
    unfolding flood_seeded_def
  proof (intro allI impI)
    fix p assume p: "p < w * h" and tb: "transparent d p \<and> on_border w h p"
    define x where "x = p mod w"
    define y where "y = p div w"
    have x: "x < w" using wh by (simp add: x_def)
    have y: "y < h" using p by (simp add: y_def div_lt_height)
    have pe: "p = y * w + x" by (simp add: x_def y_def)
    from tb have "x = 0 \<or> x + 1 = w \<or> y = 0 \<or> y + 1 = h"
      by (simp add: on_border_def x_def y_def)
    then show "marked s p"
    proof (elim disjE)
      assume "x = 0" then show ?thesis using cols[OF y] tb pe by simp
    next
      assume "x + 1 = w" then have "x = w - 1" by simp
      then show ?thesis using cols[OF y] tb pe by simp
    next
      assume "y = 0" then show ?thesis using rows[OF x] tb pe by simp
    next
      assume "y + 1 = h" then have "y = h - 1" by simp
      then show ?thesis using rows[OF x] tb pe by simp
    qed
  qed
  moreover have "flood_closed w h d s" by (simp add: flood_closed_def h0)
  ultimately show ?thesis using inv by simp
qed

lemma adj4_coord:
  "x < w \<Longrightarrow> x' < w \<Longrightarrow>
   adj4 w (y * w + x) (y' * w + x') \<longleftrightarrow>
     (y = y' \<and> (x = x' + 1 \<or> x' = x + 1)) \<or> (x = x' \<and> (y = y' + 1 \<or> y' = y + 1))"
  by (simp only: adj4_def coord_mod coord_div)

lemma flood_step_inv:
  assumes wh: "0 < w" and inv: "flood_inv w h d s" and cl: "flood_closed w h d s"
    and b: "h2 s < t2 s"
  shows "flood_inv w h d (flood_step w h d s) \<and> flood_closed w h d (flood_step w h d s)
       \<and> (\<forall>r. marked s r \<longrightarrow> marked (flood_step w h d s) r)
       \<and> h2 (flood_step w h d s) = h2 s + 1"
proof -
  define p where "p = q2 s ! h2 s"
  define x where "x = p mod w"
  define y where "y = p div w"
  define xl where "xl = x - 1"
  define xr where "xr = x + 1"
  define yu where "yu = y - 1"
  define yd where "yd = y + 1"
  define s0 where "s0 = s\<lparr>h2 := h2 s + 1\<rparr>"
  define s1 where "s1 = (if x > 0 then pushIfTransparent w d xl y s0 else s0)"
  define s2 where "s2 = (if x + 1 < w then pushIfTransparent w d xr y s1 else s1)"
  define s3 where "s3 = (if y > 0 then pushIfTransparent w d x yu s2 else s2)"
  define s4 where "s4 = (if y + 1 < h then pushIfTransparent w d x yd s3 else s3)"
  have len: "length (bg s) = w * h" "length (q2 s) = w * h" "h2 s \<le> t2 s" "t2 s \<le> w * h"
    and qs: "\<And>r. r \<in> set (take (t2 s) (q2 s)) \<longleftrightarrow> marked s r"
    and snd: "\<And>r. marked s r \<Longrightarrow> border_connected w h d r"
    using inv by (auto simp: flood_inv_def)
  have hl: "h2 s < length (q2 s)" using b len by simp
  have eq: "flood_step w h d s = s4"
    using hl wh
    by (simp add: flood_step_def Let_def s4_def s3_def s2_def s1_def s0_def
        yd_def yu_def xr_def xl_def x_def y_def p_def)
  have "take (t2 s) (q2 s) ! h2 s = p" using b by (simp add: p_def)
  moreover have "h2 s < length (take (t2 s) (q2 s))" using b hl by simp
  ultimately have "p \<in> set (take (t2 s) (q2 s))" by (metis nth_mem)
  then have mp: "marked s p" by (simp add: qs)
  then have bcp: "border_connected w h d p" by (rule snd)
  then have plt: "p < w * h" and trp: "transparent d p"
    by (auto dest: border_connected_props)
  have x: "x < w" using wh by (simp add: x_def)
  have y: "y < h" using plt by (simp add: y_def div_lt_height)
  have pe: "p = y * w + x" by (simp add: x_def y_def)
  have m0: "\<And>r. marked s0 r \<longleftrightarrow> marked s r" by (simp add: marked_def s0_def)
  have inv0: "flood_inv w h d s0"
    using inv b unfolding flood_inv_def by (simp add: m0) (simp add: s0_def)
  have bc: "\<And>x' y'. x' < w \<Longrightarrow> y' < h \<Longrightarrow>
      (y = y' \<and> (x = x' + 1 \<or> x' = x + 1)) \<or> (x = x' \<and> (y = y' + 1 \<or> y' = y + 1)) \<Longrightarrow>
      transparent d (y' * w + x') \<Longrightarrow> border_connected w h d (y' * w + x')"
  proof -
    fix x' y' assume a: "x' < w" "y' < h"
      "(y = y' \<and> (x = x' + 1 \<or> x' = x + 1)) \<or> (x = x' \<and> (y = y' + 1 \<or> y' = y + 1))"
      "transparent d (y' * w + x')"
    have "adj4 w (y * w + x) (y' * w + x')"
      using adj4_coord[OF x a(1), of y y'] a(3) by blast
    then have ad: "adj4 w p (y' * w + x')" by (simp only: pe[symmetric])
    have rlt: "y' * w + x' < w * h" using a(1,2) by (rule coord_lt)
    show "border_connected w h d (y' * w + x')"
      by (rule border_step[OF bcp rlt a(4) ad])
  qed
  have 1: "flood_inv w h d s1 \<and> flood_ext s0 s1
       \<and> (x > 0 \<and> transparent d (y * w + xl) \<longrightarrow> marked s1 (y * w + xl))"
    unfolding s1_def using x y
    by (intro push_guarded[OF inv0] bc) (auto simp: xl_def)
  have 2: "flood_inv w h d s2 \<and> flood_ext s1 s2
       \<and> (x + 1 < w \<and> transparent d (y * w + xr) \<longrightarrow> marked s2 (y * w + xr))"
    unfolding s2_def using x y 1
    by (intro push_guarded bc) (auto simp: xr_def)
  have 3: "flood_inv w h d s3 \<and> flood_ext s2 s3
       \<and> (y > 0 \<and> transparent d (yu * w + x) \<longrightarrow> marked s3 (yu * w + x))"
    unfolding s3_def using x y 2
    by (intro push_guarded bc) (auto simp: yu_def)
  have 4: "flood_inv w h d s4 \<and> flood_ext s3 s4
       \<and> (y + 1 < h \<and> transparent d (yd * w + x) \<longrightarrow> marked s4 (yd * w + x))"
    unfolding s4_def using x y 3
    by (intro push_guarded bc) (auto simp: yd_def)
  have e14: "flood_ext s1 s4" "flood_ext s2 s4" "flood_ext s3 s4" "flood_ext s0 s4"
    using 1 2 3 4 by (blast intro: flood_ext_trans)+
  have mono: "\<And>r. marked s r \<Longrightarrow> marked s4 r"
    using e14(4) m0 by (simp add: flood_ext_def)
  have h4: "h2 s4 = h2 s + 1" using e14(4) by (simp add: flood_ext_def s0_def)
  have q4: "\<And>i. i < t2 s \<Longrightarrow> q2 s4 ! i = q2 s ! i"
    using e14(4) by (simp add: flood_ext_def s0_def)
  have "flood_closed w h d s4"
    unfolding flood_closed_def
  proof (intro allI impI)
    fix i r assume i: "i < h2 s4" and r: "r < w * h"
      and ar: "adj4 w (q2 s4 ! i) r \<and> transparent d r"
    have it: "i < t2 s" using i h4 b by simp
    show "marked s4 r"
    proof (cases "i < h2 s")
      case True
      then have "marked s r" using cl r ar q4[OF it] by (auto simp: flood_closed_def)
      then show ?thesis by (rule mono)
    next
      case False
      then have "i = h2 s" using i h4 by simp
      then have qp: "q2 s4 ! i = p" using q4[OF it] by (simp add: p_def)
      define x' where "x' = r mod w"
      define y' where "y' = r div w"
      have x': "x' < w" using wh by (simp add: x'_def)
      have re: "r = y' * w + x'" by (simp add: x'_def y'_def)
      have y': "y' < h" using r by (simp add: y'_def div_lt_height)
      have tr: "transparent d (y' * w + x')" using ar re by simp
      have "adj4 w p r" using ar qp by simp
      then have "adj4 w (y * w + x) (y' * w + x')" by (simp only: pe[symmetric] re[symmetric])
      then have "(y = y' \<and> (x = x' + 1 \<or> x' = x + 1)) \<or> (x = x' \<and> (y = y' + 1 \<or> y' = y + 1))"
        using adj4_coord[OF x x', of y y'] by blast
      then consider (l) "y' = y" "x' = xl" "x > 0" | (r) "y' = y" "x' = xr" "x + 1 < w"
        | (u) "x' = x" "y' = yu" "y > 0" | (d) "x' = x" "y' = yd" "y + 1 < h"
        using x' y' by (auto simp: xl_def xr_def yu_def yd_def)
      then show ?thesis
      proof cases
        case l
        then have "marked s1 r" using 1 tr re by simp
        then show ?thesis using e14(1) by (simp add: flood_ext_def)
      next
        case r
        then have "marked s2 (y' * w + x')" using 2 tr by simp
        then show ?thesis using e14(2) re by (simp add: flood_ext_def)
      next
        case u
        then have "marked s3 (y' * w + x')" using 3 tr by simp
        then show ?thesis using e14(3) re by (simp add: flood_ext_def)
      next
        case d
        then have "marked s4 (y' * w + x')" using 4 tr by simp
        then show ?thesis using re by simp
      qed
    qed
  qed
  then show ?thesis using 4 mono h4 unfolding eq by blast
qed

lemma flood_step_ok:
  assumes wh: "0 < w" and ok: "flood_ok w h d s" and b: "h2 s < t2 s"
  shows "flood_ok w h d (flood_step w h d s) \<and> w * h - h2 (flood_step w h d s) < w * h - h2 s"
proof -
  have inv: "flood_inv w h d s" and cl: "flood_closed w h d s" and sd: "flood_seeded w h d s"
    using ok by (auto simp: flood_ok_def)
  note st = flood_step_inv[OF wh inv cl b]
  have "flood_seeded w h d (flood_step w h d s)"
    using sd st unfolding flood_seeded_def by blast
  moreover have "h2 s < w * h" using inv b by (simp add: flood_inv_def)
  ultimately show ?thesis using st by (simp add: flood_ok_def)
qed

lemma flood_loop_result:
  assumes wh: "0 < w" and ok: "flood_ok w h d s"
  shows "\<exists>t. flood_loop w h d s = Some t \<and> flood_ok w h d t \<and> h2 t = t2 t"
proof -
  have "\<exists>t. while_option (\<lambda>s. h2 s < t2 s) (flood_step w h d) s = Some t"
    by (rule measure_while_option_Some[where P = "flood_ok w h d" and f = "\<lambda>s. w * h - h2 s"])
      (use flood_step_ok[OF wh] ok in auto)
  then obtain t where t: "while_option (\<lambda>s. h2 s < t2 s) (flood_step w h d) s = Some t" ..
  have "flood_ok w h d t"
    by (rule while_option_rule[where P = "flood_ok w h d", OF _ t ok])
      (use flood_step_ok[OF wh] in auto)
  moreover have "\<not> h2 t < t2 t" using while_option_stop[OF t] .
  moreover have "h2 t \<le> t2 t" using \<open>flood_ok w h d t\<close> by (simp add: flood_ok_def flood_inv_def)
  ultimately show ?thesis using t by (simp add: flood_loop_def)
qed

lemma flood_complete:
  assumes ok: "flood_ok w h d t" and e: "h2 t = t2 t"
  shows "border_reach w h d n p \<Longrightarrow> marked t p"
proof (induction n arbitrary: p)
  case 0
  then show ?case using ok by (auto simp: flood_ok_def flood_seeded_def)
next
  case (Suc n)
  show ?case
  proof (cases "border_reach w h d n p")
    case True
    then show ?thesis by (rule Suc.IH)
  next
    case False
    with Suc.prems obtain r where r: "adj4 w r p" "border_reach w h d n r"
      and p: "p < w * h" "transparent d p"
      by (auto simp: list_ex_iff)
    have "marked t r" using r(2) by (rule Suc.IH)
    then have "r \<in> set (take (t2 t) (q2 t))" using ok by (simp add: flood_ok_def flood_inv_def)
    then obtain i where i: "i < length (take (t2 t) (q2 t))" "take (t2 t) (q2 t) ! i = r"
      by (auto simp: in_set_conv_nth)
    then have "i < h2 t" "q2 t ! i = r" using e by auto
    then show ?thesis using ok r(1) p unfolding flood_ok_def flood_closed_def by blast
  qed
qed

lemma flood_marks:
  assumes wh: "0 < w" "0 < h"
  shows "\<exists>t. flood_loop w h d (seed_cols w h d (seed_rows w h d (flood_init w h))) = Some t
           \<and> length (bg t) = w * h \<and> (\<forall>p. marked t p \<longleftrightarrow> border_connected w h d p)"
proof -
  have "flood_ok w h d (seed_cols w h d (seed_rows w h d (flood_init w h)))"
    using seeded_start[OF wh seed_done[OF wh]] by (simp add: flood_ok_def)
  from flood_loop_result[OF wh(1) this] obtain t
    where t: "flood_loop w h d (seed_cols w h d (seed_rows w h d (flood_init w h))) = Some t"
      "flood_ok w h d t" "h2 t = t2 t" by blast
  have "\<And>p. border_connected w h d p \<Longrightarrow> marked t p"
    unfolding border_connected_def using flood_complete[OF t(2,3)] by blast
  moreover have "\<And>p. marked t p \<Longrightarrow> border_connected w h d p"
    using t(2) by (simp add: flood_ok_def flood_inv_def)
  moreover have "length (bg t) = w * h" using t(2) by (simp add: flood_ok_def flood_inv_def)
  ultimately show ?thesis using t(1) by blast
qed

lemma fill_hole_length: "length (fill_hole b p d) = length d"
  by (simp add: fill_hole_def)

lemma fill_hole_nth:
  assumes "j < length d"
  shows "fill_hole b p d ! j = (if j div 4 = p \<and> hole_at b d p then 255 else d ! j)"
proof -
  have c: "j div 4 = p \<longleftrightarrow> j = p * 4 \<or> j = p * 4 + 1 \<or> j = p * 4 + 2 \<or> j = p * 4 + 3"
    by presburger
  show "fill_hole b p d ! j = (if j div 4 = p \<and> hole_at b d p then 255 else d ! j)"
    using assms unfolding c
    by (auto simp: fill_hole_def hole_at_def nth_list_update)
qed

lemma fill_fold:
  "length (fold (fill_hole b) [0..<n] d) = length d \<and>
   (\<forall>j < length d. fold (fill_hole b) [0..<n] d ! j =
        (if j div 4 < n \<and> hole_at b d (j div 4) then 255 else d ! j))"
proof (induction n)
  case 0
  then show ?case by simp
next
  case (Suc n)
  define d1 where "d1 = fold (fill_hole b) [0..<n] d"
  have l1: "length d1 = length d"
    and v1: "\<And>j. j < length d \<Longrightarrow>
        d1 ! j = (if j div 4 < n \<and> hole_at b d (j div 4) then 255 else d ! j)"
    using Suc.IH by (auto simp: d1_def)
  have a: "alphaAt d1 n = alphaAt d n"
    using v1[of "n * 4 + 3"] l1 by (simp add: alphaAt_def)
  then have h: "hole_at b d1 n = hole_at b d n" by (simp add: hole_at_def)
  have e: "fold (fill_hole b) [0..<Suc n] d = fill_hole b n d1" by (simp add: d1_def)
  show ?case
    unfolding e
    using fill_hole_nth[of _ d1 b n] l1 v1 h
    by (auto simp: less_Suc_eq fill_hole_length)
qed

lemma phase1_result:
  assumes wf: "wf_png img"
  shows "\<exists>out. phase1 img = Some out \<and> width out = width img \<and> height out = height img \<and>
           length (data out) = length (data img) \<and>
           (\<forall>j < length (data img). data out ! j =
              (if transparent (data img) (j div 4) \<and>
                  \<not> border_connected (width img) (height img) (data img) (j div 4)
               then 255 else data img ! j))"
proof -
  define w h d where "w = width img" and "h = height img" and "d = data img"
  have wh: "0 < w" "0 < h" and len: "length d = 4 * (w * h)"
    using wf by (auto simp: wf_png_def w_def h_def d_def)
  from flood_marks[OF wh, of d] obtain t
    where t: "flood_loop w h d (seed_cols w h d (seed_rows w h d (flood_init w h))) = Some t"
      and lb: "length (bg t) = w * h"
      and mk: "\<And>p. marked t p \<longleftrightarrow> border_connected w h d p" by blast
  define out where "out = img\<lparr>data := fold (fill_hole (bg t)) [0..<w * h] d\<rparr>"
  have p1: "phase1 img = Some out"
    using t by (simp add: phase1_def Let_def out_def w_def h_def d_def)
  have hl: "\<And>p. hole_at (bg t) d p \<longleftrightarrow> transparent d p \<and> \<not> border_connected w h d p"
    using mk by (simp add: hole_at_def transparent_def marked_def)
  have "\<And>j. j < length d \<Longrightarrow> j div 4 < w * h" using len by simp
  then have "\<forall>j < length d. data out ! j =
      (if transparent d (j div 4) \<and> \<not> border_connected w h d (j div 4) then 255 else d ! j)"
    using fill_fold[of "bg t" "w * h" d] by (simp add: out_def hl)
  moreover have "length (data out) = length d"
    using fill_fold[of "bg t" "w * h" d] by (simp add: out_def)
  ultimately show ?thesis
    using p1 unfolding w_def h_def d_def by (simp add: out_def)
qed

lemma adj8_coord:
  "x < w \<Longrightarrow> x' < w \<Longrightarrow>
   adj8 w (y * w + x) (y' * w + x') \<longleftrightarrow>
     (x \<noteq> x' \<or> y \<noteq> y') \<and> x \<le> x' + 1 \<and> x' \<le> x + 1 \<and> y \<le> y' + 1 \<and> y' \<le> y + 1"
proof -
  assume a: "x < w" "x' < w"
  have "y * w + x = y' * w + x' \<longleftrightarrow> x = x' \<and> y = y'"
    using a by (metis coord_div coord_mod)
  then show ?thesis using a by (simp only: adj8_def coord_mod coord_div) blast
qed

lemma edge_pixel_coord:
  assumes "x < w" "y < h"
  shows "edge_pixel w h d (y * w + x) \<longleftrightarrow>
     opaque d (y * w + x) \<and>
     (x = 0 \<or> x + 1 = w \<or> y = 0 \<or> y + 1 = h \<or>
      (\<exists>x' y'. x' < w \<and> y' < h \<and> (x \<noteq> x' \<or> y \<noteq> y') \<and> x \<le> x' + 1 \<and> x' \<le> x + 1 \<and>
          y \<le> y' + 1 \<and> y' \<le> y + 1 \<and> transparent d (y' * w + x')))"
proof -
  have w: "0 < w" using assms by simp
  have "(\<exists>r < w * h. adj8 w (y * w + x) r \<and> transparent d r) \<longleftrightarrow>
      (\<exists>x' y'. x' < w \<and> y' < h \<and> (x \<noteq> x' \<or> y \<noteq> y') \<and> x \<le> x' + 1 \<and> x' \<le> x + 1 \<and>
          y \<le> y' + 1 \<and> y' \<le> y + 1 \<and> transparent d (y' * w + x'))" (is "?L \<longleftrightarrow> ?R")
  proof
    assume ?L
    then obtain r where r: "r < w * h" "adj8 w (y * w + x) r" "transparent d r" by blast
    define x' y' where "x' = r mod w" and "y' = r div w"
    have x': "x' < w" using w by (simp add: x'_def)
    have y': "y' < h" using r(1) by (simp add: y'_def div_lt_height)
    have re: "r = y' * w + x'" by (simp add: x'_def y'_def)
    have "adj8 w (y * w + x) (y' * w + x')" using r(2) by (simp only: re)
    then show ?R using adj8_coord[OF assms(1) x', of y y'] x' y' r(3) re by blast
  next
    assume ?R
    then obtain x' y' where a: "x' < w" "y' < h"
      "(x \<noteq> x' \<or> y \<noteq> y') \<and> x \<le> x' + 1 \<and> x' \<le> x + 1 \<and> y \<le> y' + 1 \<and> y' \<le> y + 1"
      "transparent d (y' * w + x')" by blast
    have "adj8 w (y * w + x) (y' * w + x')" using adj8_coord[OF assms(1) a(1), of y y'] a(3) by blast
    moreover have "y' * w + x' < w * h" using a(1,2) by (rule coord_lt)
    ultimately show ?L using a(4) by blast
  qed
  then show ?thesis
    using coord_lt[OF assms] on_border_coord[OF assms(1), of h y]
    by (simp add: edge_pixel_def list_ex_iff Bex_def)
qed


lemma isEdge_alt:
  "isEdge w h d x y \<longleftrightarrow>
     (\<exists>dx \<in> {-1, 0, 1}. \<exists>dy \<in> {-1, 0, 1}. \<not> (dx = 0 \<and> dy = 0) \<and>
        (int x + dx < 0 \<or> int y + dy < 0 \<or> int x + dx \<ge> int w \<or> int y + dy \<ge> int h \<or>
         alphaAt d (nat ((int y + dy) * int w + (int x + dx))) = Some 0))"
  unfolding isEdge_def list_ex_iff Let_def by auto

lemma nat_coord: "nat (int y * int w + int x) = y * w + x"
  by (metis nat_int of_nat_add of_nat_mult)

lemma isEdge_iff:
  assumes xy: "x < w" "y < h"
  shows "isEdge w h d x y \<longleftrightarrow>
     (x = 0 \<or> x + 1 = w \<or> y = 0 \<or> y + 1 = h \<or>
      (\<exists>x' y'. x' < w \<and> y' < h \<and> (x \<noteq> x' \<or> y \<noteq> y') \<and> x \<le> x' + 1 \<and> x' \<le> x + 1 \<and>
          y \<le> y' + 1 \<and> y' \<le> y + 1 \<and> transparent d (y' * w + x')))" (is "?L \<longleftrightarrow> ?R")
proof
  assume ?L
  then obtain dx dy where o: "dx \<in> {-1, 0, 1}" "dy \<in> {-1, 0, 1}" "\<not> (dx = 0 \<and> dy = 0)"
    and pr: "int x + dx < 0 \<or> int y + dy < 0 \<or> int x + dx \<ge> int w \<or> int y + dy \<ge> int h \<or>
         alphaAt d (nat ((int y + dy) * int w + (int x + dx))) = Some 0"
    unfolding isEdge_alt by blast
  show ?R
  proof (cases "int x + dx < 0 \<or> int y + dy < 0 \<or> int x + dx \<ge> int w \<or> int y + dy \<ge> int h")
    case True
    then show ?thesis using o xy by auto
  next
    case False
    define x' y' where "x' = nat (int x + dx)" and "y' = nat (int y + dy)"
    have e: "int x' = int x + dx" "int y' = int y + dy" using False by (auto simp: x'_def y'_def)
    have b: "x' < w" "y' < h" using False e by auto
    have "alphaAt d (nat (int y' * int w + int x')) = Some 0" using pr False by (simp add: e)
    then have "transparent d (y' * w + x')" by (simp add: nat_coord transparent_def)
    moreover have "(x \<noteq> x' \<or> y \<noteq> y') \<and> x \<le> x' + 1 \<and> x' \<le> x + 1 \<and> y \<le> y' + 1 \<and> y' \<le> y + 1"
      using o e by auto
    ultimately show ?thesis using b by blast
  qed
next
  assume r: ?R
  have pick: "\<And>dx dy. dx \<in> {-1, 0, 1} \<Longrightarrow> dy \<in> {-1, 0, 1} \<Longrightarrow> \<not> (dx = 0 \<and> dy = 0) \<Longrightarrow>
      (int x + dx < 0 \<or> int y + dy < 0 \<or> int x + dx \<ge> int w \<or> int y + dy \<ge> int h \<or>
         alphaAt d (nat ((int y + dy) * int w + (int x + dx))) = Some 0) \<Longrightarrow> ?L"
    unfolding isEdge_alt by blast
  from r consider "x = 0" | "x + 1 = w" | "y = 0" | "y + 1 = h"
    | x' y' where "x' < w" "y' < h" "x \<noteq> x' \<or> y \<noteq> y'" "x \<le> x' + 1" "x' \<le> x + 1"
        "y \<le> y' + 1" "y' \<le> y + 1" "transparent d (y' * w + x')"
    by blast
  then show ?L
  proof cases
    case 1 then show ?thesis by (intro pick[of "-1" 0]) auto
  next
    case 2 then show ?thesis by (intro pick[of 1 0]) auto
  next
    case 3 then show ?thesis by (intro pick[of 0 "-1"]) auto
  next
    case 4 then show ?thesis by (intro pick[of 0 1]) auto
  next
    case 5
    define dx dy where "dx = int x' - int x" and "dy = int y' - int y"
    have e: "int x + dx = int x'" "int y + dy = int y'" by (auto simp: dx_def dy_def)
    have "alphaAt d (nat ((int y + dy) * int w + (int x + dx))) = Some 0"
      using 5(8) by (simp only: e nat_coord transparent_def)
    moreover have "dx \<in> {-1, 0, 1}" "dy \<in> {-1, 0, 1}" "\<not> (dx = 0 \<and> dy = 0)"
      using 5 by (auto simp: dx_def dy_def)
    ultimately show ?thesis by (intro pick[of dx dy]) auto
  qed
qed

lemma isEdge_edge_pixel:
  assumes "x < w" "y < h"
  shows "edge_pixel w h d (y * w + x) \<longleftrightarrow> opaque d (y * w + x) \<and> isEdge w h d x y"
  by (simp only: edge_pixel_coord[OF assms] isEdge_iff[OF assms])


lemma opaque_iff: "opaque d p \<longleftrightarrow> \<not> transparent d p"
  by (simp add: opaque_def transparent_def)

lemma near_props: "near w h d n p \<Longrightarrow> p < w * h \<and> opaque d p"
  by (induction n) (auto simp: edge_pixel_def)

lemma near_Suc: "near w h d n p \<Longrightarrow> near w h d (Suc n) p"
  by simp

lemma near_mono: "near w h d n p \<Longrightarrow> n \<le> m \<Longrightarrow> near w h d m p"
  by (induction m) (auto simp: le_Suc_eq)

lemma near_step:
  assumes "near w h d n r" "adj4 w r p" "p < w * h" "opaque d p"
  shows "near w h d (Suc n) p"
proof -
  have "r < w * h" using assms(1) by (simp add: near_props)
  then show ?thesis using assms by (auto simp: list_ex_iff)
qed

lemma near_pred:
  assumes "near w h d (Suc n) p" "\<not> near w h d n p"
  shows "\<exists>r. adj4 w r p \<and> near w h d n r"
  using assms by (auto simp: list_ex_iff)

lemma level_exists: "near w h d n p \<Longrightarrow> \<exists>k \<le> n. level w h d k p"
proof (induction n)
  case 0
  then show ?case by (auto simp: level_def)
next
  case (Suc n)
  show ?case
  proof (cases "near w h d n p")
    case True
    then show ?thesis using Suc.IH by (meson le_Suc_eq)
  next
    case False
    then have "level w h d (Suc n) p" using Suc.prems by (simp add: level_def)
    then show ?thesis by blast
  qed
qed

lemma level_near_le:
  assumes "level w h d n p" "near w h d m p"
  shows "n \<le> m"
proof (rule ccontr)
  assume c: "\<not> n \<le> m"
  then have "m \<le> n - 1" by simp
  with assms(2) have "near w h d (n - 1) p" by (rule near_mono)
  moreover have "n \<noteq> 0" using c by simp
  ultimately show False using assms(1) unfolding level_def by blast
qed

lemma level_unique:
  assumes "level w h d n p" "level w h d m p"
  shows "n = m"
proof -
  have "near w h d n p" "near w h d m p" using assms unfolding level_def by blast+
  then have "n \<le> m" "m \<le> n" using assms by (blast intro: level_near_le)+
  then show ?thesis by simp
qed

lemma near_x:
  assumes y: "y < h"
  shows "x < w \<Longrightarrow> opaque d (y * w + x) \<Longrightarrow> near w h d x (y * w + x)"
proof (induction x)
  case 0
  then show ?case using edge_pixel_coord[of 0 w y h d] y by simp
next
  case (Suc x)
  have x: "x < w" using Suc.prems by simp
  show ?case
  proof (cases "edge_pixel w h d (y * w + Suc x)")
    case True
    then have "near w h d 0 (y * w + Suc x)" by simp
    then show ?thesis by (rule near_mono) simp
  next
    case False
    have "\<not> transparent d (y * w + x)"
    proof
      assume "transparent d (y * w + x)"
      then have "x < w \<and> y < h \<and> (Suc x \<noteq> x \<or> y \<noteq> y) \<and> Suc x \<le> x + 1 \<and>
          x \<le> Suc x + 1 \<and> y \<le> y + 1 \<and> y \<le> y + 1 \<and> transparent d (y * w + x)"
        using x y by simp
      then have "\<exists>x' y'. x' < w \<and> y' < h \<and> (Suc x \<noteq> x' \<or> y \<noteq> y') \<and> Suc x \<le> x' + 1 \<and>
          x' \<le> Suc x + 1 \<and> y \<le> y' + 1 \<and> y' \<le> y + 1 \<and> transparent d (y' * w + x')"
        by blast
      then have "edge_pixel w h d (y * w + Suc x)"
        unfolding edge_pixel_coord[OF Suc.prems(1) y] using Suc.prems(2) by blast
      then show False using False by simp
    qed
    then have "near w h d x (y * w + x)" using Suc.IH x by (simp add: opaque_iff)
    moreover have "adj4 w (y * w + x) (y * w + Suc x)"
      using adj4_coord[OF x Suc.prems(1), of y y] by simp
    ultimately show ?thesis
      using coord_lt[OF Suc.prems(1) y] Suc.prems(2) by (intro near_step[of w h d x "y * w + x"])
  qed
qed

lemma near_y:
  assumes x: "x < w"
  shows "y < h \<Longrightarrow> opaque d (y * w + x) \<Longrightarrow> near w h d y (y * w + x)"
proof (induction y)
  case 0
  then show ?case using edge_pixel_coord[of x w 0 h d] x by simp
next
  case (Suc y)
  have y: "y < h" using Suc.prems by simp
  show ?case
  proof (cases "edge_pixel w h d (Suc y * w + x)")
    case True
    then have "near w h d 0 (Suc y * w + x)" by simp
    then show ?thesis by (rule near_mono) simp
  next
    case False
    have "\<not> transparent d (y * w + x)"
    proof
      assume "transparent d (y * w + x)"
      then have "x < w \<and> y < h \<and> (x \<noteq> x \<or> Suc y \<noteq> y) \<and> x \<le> x + 1 \<and>
          x \<le> x + 1 \<and> Suc y \<le> y + 1 \<and> y \<le> Suc y + 1 \<and> transparent d (y * w + x)"
        using x y by simp
      then have "\<exists>x' y'. x' < w \<and> y' < h \<and> (x \<noteq> x' \<or> Suc y \<noteq> y') \<and> x \<le> x' + 1 \<and>
          x' \<le> x + 1 \<and> Suc y \<le> y' + 1 \<and> y' \<le> Suc y + 1 \<and> transparent d (y' * w + x')"
        by blast
      then have "edge_pixel w h d (Suc y * w + x)"
        unfolding edge_pixel_coord[OF x Suc.prems(1)] using Suc.prems(2) by blast
      then show False using False by simp
    qed
    then have "near w h d y (y * w + x)" using Suc.IH y by (simp add: opaque_iff)
    moreover have "adj4 w (y * w + x) (Suc y * w + x)"
      using adj4_coord[OF x x, of y "Suc y"] by simp
    ultimately show ?thesis
      using coord_lt[OF x Suc.prems(1)] Suc.prems(2) by (intro near_step[of w h d y "y * w + x"])
  qed
qed

lemma level_bound:
  assumes w: "0 < w" and sz: "4 * (w * h) \<le> (2::nat) ^ 32" and l: "level w h d n p"
  shows "n \<le> 32767"
proof -
  have p: "p < w * h" "opaque d p" using l by (auto simp: level_def dest: near_props)
  define x y where "x = p mod w" and "y = p div w"
  have x: "x < w" using w by (simp add: x_def)
  have y: "y < h" using p(1) by (simp add: y_def div_lt_height)
  have pe: "p = y * w + x" by (simp add: x_def y_def)
  have "near w h d x p" "near w h d y p"
    using near_x[OF y x, of d] near_y[OF x y, of d] p(2) by (simp_all add: pe)
  then have n: "n \<le> x" "n \<le> y" using l by (auto intro: level_near_le)
  show ?thesis
  proof (cases "w \<le> 32768")
    case True
    then show ?thesis using n(1) x by simp
  next
    case False
    have "h \<le> 32768"
    proof (rule ccontr)
      assume "\<not> h \<le> 32768"
      define a where "a = w * h"
      have "32769 * 32769 \<le> w * h" using False \<open>\<not> h \<le> 32768\<close> by (intro mult_le_mono) auto
      then have "1073807361 \<le> a" by (simp add: a_def)
      moreover have "4 * a \<le> 4294967296" using sz by (simp add: a_def)
      ultimately show False by simp
    qed
    then show ?thesis using n(2) y by simp
  qed
qed

lemma bfs_ext_refl: "bfs_ext s s"
  by (simp add: bfs_ext_def)

lemma bfs_ext_trans: "bfs_ext s s' \<Longrightarrow> bfs_ext s' s'' \<Longrightarrow> bfs_ext s s''"
  unfolding bfs_ext_def by (metis le_trans less_le_trans)

lemma int16_id: "0 \<le> v \<Longrightarrow> v \<le> 32767 \<Longrightarrow> int16 v = v"
  by (simp add: int16_def)

lemma relax_out:
  "nx < 0 \<or> ny < 0 \<or> nx \<ge> int w \<or> ny \<ge> int h \<Longrightarrow> relax w h d dv (nx, ny) s = s"
  by (simp add: relax_def)

lemma relax_in:
  assumes "x < w" "y < h" "length (dist_arr s) = w * h"
  shows "relax w h d dv (int x, int y) s =
     (if transparent d (y * w + x) \<or> visited s (y * w + x) then s
      else s\<lparr>dist_arr := (dist_arr s)[y * w + x := int16 (dv + 1)],
              q := (q s)[tail s := y * w + x], tail := tail s + 1\<rparr>)"
  using assms coord_lt[OF assms(1,2)]
  by (simp add: relax_def Let_def nat_coord transparent_def visited_def)

lemma append_new_entry:
  assumes len: "length qs = n" and t: "t \<le> n" and dis: "distinct (take t qs)"
    and sub: "set (take t qs) \<subseteq> {0..<n}" and p: "p < n" "p \<notin> set (take t qs)"
  shows "t < n" and "take (Suc t) (qs[t := p]) = take t qs @ [p]"
proof -
  have "insert p (set (take t qs)) \<subseteq> {0..<n}" using sub p by auto
  then have "card (insert p (set (take t qs))) \<le> card {0..<n}"
    by (intro card_mono) auto
  moreover have "card (set (take t qs)) = t" using dis len t by (simp add: distinct_card)
  ultimately show "t < n" using p by simp
  then show "take (Suc t) (qs[t := p]) = take t qs @ [p]"
    using len by (simp add: take_Suc_conv_app_nth)
qed


lemma bfs_push:
  assumes base: "bfs_base w h d s" and np: "np < w * h" and nv: "\<not> visited s np"
    and lv: "level w h d k np" and le: "\<And>p. visited s p \<Longrightarrow> dist_arr s ! p \<le> int k"
    and s': "s' = s\<lparr>dist_arr := (dist_arr s)[np := int k], q := (q s)[tail s := np],
                     tail := tail s + 1\<rparr>"
  shows "bfs_base w h d s'" and "bfs_ext s s'" and "\<And>r. visited s' r \<longleftrightarrow> r = np \<or> visited s r"
    and "dist_arr s' ! np = int k"
proof -
  have len: "length (dist_arr s) = w * h" "length (q s) = w * h" "head s \<le> tail s"
      "tail s \<le> w * h"
    and dis: "distinct (take (tail s) (q s))"
    and qs: "\<And>r. r \<in> set (take (tail s) (q s)) \<longleftrightarrow> visited s r"
    and ex: "\<And>r. visited s r \<Longrightarrow> \<exists>n. dist_arr s ! r = int n \<and> level w h d n r"
    and so: "sorted (map (\<lambda>p. dist_arr s ! p) (take (tail s) (q s)))"
    using base by (auto simp: bfs_base_def bfs_queue_def)
  have eq: "dist_arr s' = (dist_arr s)[np := int k]" "q s' = (q s)[tail s := np]"
    "tail s' = Suc (tail s)" "head s' = head s"
    by (simp_all add: s')
  have notin: "np \<notin> set (take (tail s) (q s))" using nv by (simp add: qs)
  have sub: "set (take (tail s) (q s)) \<subseteq> {0..<w * h}"
    using len by (auto simp: qs visited_def)
  have tlt: "tail s < w * h"
    and tk: "take (Suc (tail s)) ((q s)[tail s := np]) = take (tail s) (q s) @ [np]"
    using append_new_entry[OF len(2) len(4) dis sub np notin] by auto
  have dv: "\<And>r. dist_arr s' ! r = (if r = np then int k else dist_arr s ! r)"
    using np len by (simp add: eq nth_list_update)
  show vis: "\<And>r. visited s' r \<longleftrightarrow> r = np \<or> visited s r"
    using np len by (auto simp: visited_def eq nth_list_update)
  show "dist_arr s' ! np = int k" by (simp add: dv)
  have same: "\<And>r. visited s r \<Longrightarrow> dist_arr s' ! r = dist_arr s ! r"
    using nv by (auto simp: dv)
  have q': "bfs_queue s' = take (tail s) (q s) @ [np]" by (simp add: bfs_queue_def eq tk)
  have m: "map (\<lambda>p. dist_arr s' ! p) (take (tail s) (q s))
         = map (\<lambda>p. dist_arr s ! p) (take (tail s) (q s))"
    by (rule map_cong[OF refl]) (simp add: qs same)
  have "map (\<lambda>p. dist_arr s' ! p) (bfs_queue s')
         = map (\<lambda>p. dist_arr s ! p) (take (tail s) (q s)) @ [int k]"
    unfolding q' using m \<open>dist_arr s' ! np = int k\<close> by simp
  moreover have "\<forall>v \<in> set (map (\<lambda>p. dist_arr s ! p) (take (tail s) (q s))). v \<le> int k"
    using le by (auto simp: qs)
  ultimately have "sorted (map (\<lambda>p. dist_arr s' ! p) (bfs_queue s'))"
    using so by (simp only: sorted_append) simp
  moreover have "length (dist_arr s') = w * h" "length (q s') = w * h" "head s' \<le> tail s'"
    "tail s' \<le> w * h"
    using len tlt by (simp_all add: eq)
  moreover have "distinct (bfs_queue s')" using dis notin by (simp add: q')
  moreover have "\<forall>r. r \<in> set (bfs_queue s') \<longleftrightarrow> visited s' r"
    by (auto simp: q' vis qs)
  moreover have "\<forall>r. visited s' r \<longrightarrow> (\<exists>n. dist_arr s' ! r = int n \<and> level w h d n r)"
    using ex lv by (auto simp: vis dv)
  ultimately show "bfs_base w h d s'" unfolding bfs_base_def by blast
  have "\<forall>i < tail s. q s' ! i = q s ! i" by (simp add: eq)
  then show "bfs_ext s s'" unfolding bfs_ext_def using same by (simp add: vis eq)
qed


lemma relax_inv:
  assumes w: "0 < w" and sz: "4 * (w * h) \<le> (2::nat) ^ 32"
    and base: "bfs_base w h d s" and below: "bfs_below w h d (int m) s"
    and lp: "level w h d m p"
    and xy: "x < w" "y < h" and adj: "adj4 w p (y * w + x)"
  shows "bfs_base w h d (relax w h d (int m) (int x, int y) s)
       \<and> bfs_below w h d (int m) (relax w h d (int m) (int x, int y) s)
       \<and> bfs_ext s (relax w h d (int m) (int x, int y) s)
       \<and> (opaque d (y * w + x) \<longrightarrow> visited (relax w h d (int m) (int x, int y) s) (y * w + x))"
proof (cases "transparent d (y * w + x) \<or> visited s (y * w + x)")
  case True
  have "length (dist_arr s) = w * h" using base by (simp add: bfs_base_def)
  then have "relax w h d (int m) (int x, int y) s = s" using True xy by (simp add: relax_in)
  then show ?thesis using base below True by (auto simp: bfs_ext_refl opaque_iff)
next
  case False
  define np where "np = y * w + x"
  define s' where "s' = s\<lparr>dist_arr := (dist_arr s)[np := int (Suc m)],
      q := (q s)[tail s := np], tail := tail s + 1\<rparr>"
  have npl: "np < w * h" unfolding np_def using xy by (rule coord_lt)
  have op: "opaque d np" and nv: "\<not> visited s np" using False by (auto simp: np_def opaque_iff)
  have nm: "near w h d m p" using lp by (simp add: level_def)
  have n1: "near w h d (Suc m) np" using nm adj npl op unfolding np_def by (rule near_step)
  have "\<not> near w h d m np"
  proof
    assume "near w h d m np"
    then obtain k where "k \<le> m" "level w h d k np" using level_exists by blast
    then have "visited s np" using below unfolding bfs_below_def by (metis of_nat_le_iff)
    then show False using nv by simp
  qed
  then have lv: "level w h d (Suc m) np" using n1 by (simp add: level_def)
  have "Suc m \<le> 32767" using level_bound[OF w sz lv] .
  then have i16: "int16 (int m + 1) = int (Suc m)" by (simp add: int16_id)
  have len: "length (dist_arr s) = w * h" using base by (simp add: bfs_base_def)
  have eq: "relax w h d (int m) (int x, int y) s = s'"
    using False xy len by (simp add: relax_in i16 s'_def np_def)
  have le: "\<And>r. visited s r \<Longrightarrow> dist_arr s ! r \<le> int (Suc m)"
    using below by (auto simp: bfs_below_def)
  note push = bfs_push[OF base npl nv lv le s'_def]
  have "bfs_below w h d (int m) s'"
    unfolding bfs_below_def
  proof (intro conjI allI impI)
    fix r assume v: "visited s' r"
    show "dist_arr s' ! r \<le> int m + 1"
    proof (cases "r = np")
      case True
      then show ?thesis using push(4) by simp
    next
      case False
      then have vr: "visited s r" using v push(3) by simp
      then have "dist_arr s' ! r = dist_arr s ! r" using push(2) by (simp add: bfs_ext_def)
      then show ?thesis using le[OF vr] by simp
    qed
  next
    fix r n assume "level w h d n r \<and> int n \<le> int m"
    then have "visited s r" using below unfolding bfs_below_def by blast
    then show "visited s' r" using push(3) by simp
  qed
  then show ?thesis unfolding eq using push by (simp add: np_def)
qed

lemma relax_guard:
  assumes w: "0 < w" and sz: "4 * (w * h) \<le> (2::nat) ^ 32"
    and base: "bfs_base w h d s" and below: "bfs_below w h d (int m) s"
    and lp: "level w h d m p"
    and g: "g \<Longrightarrow> x < w \<and> y < h \<and> adj4 w p (y * w + x) \<and> n = (int x, int y)"
    and ng: "\<not> g \<Longrightarrow> fst n < 0 \<or> snd n < 0 \<or> fst n \<ge> int w \<or> snd n \<ge> int h"
  shows "bfs_base w h d (relax w h d (int m) n s)
       \<and> bfs_below w h d (int m) (relax w h d (int m) n s)
       \<and> bfs_ext s (relax w h d (int m) n s)
       \<and> (g \<and> opaque d (y * w + x) \<longrightarrow> visited (relax w h d (int m) n s) (y * w + x))"
proof (cases g)
  case True
  then show ?thesis using relax_inv[OF w sz base below lp, of x y] g by simp
next
  case False
  then have "relax w h d (int m) n s = s" using ng relax_out[of "fst n" "snd n" w h d "int m" s] by simp
  then show ?thesis using base below False by (simp add: bfs_ext_refl)
qed


lemma bfs_ext_closed:
  assumes "bfs_closed w h d k s" "bfs_ext s s'" "k \<le> tail s"
  shows "bfs_closed w h d k s'"
  using assms unfolding bfs_closed_def bfs_ext_def by (metis less_le_trans)

lemma bfs_queue_nth:
  assumes "bfs_base w h d s" "i < tail s"
  shows "visited s (q s ! i)" and "bfs_queue s ! i = q s ! i" and "i < length (bfs_queue s)"
proof -
  have l: "length (q s) = w * h" "tail s \<le> w * h"
    and qs: "\<And>r. r \<in> set (bfs_queue s) \<longleftrightarrow> visited s r"
    using assms(1) by (auto simp: bfs_base_def)
  show il: "i < length (bfs_queue s)" using l assms(2) by (simp add: bfs_queue_def)
  show e: "bfs_queue s ! i = q s ! i" using assms(2) by (simp add: bfs_queue_def)
  have "bfs_queue s ! i \<in> set (bfs_queue s)" using il by (rule nth_mem)
  then show "visited s (q s ! i)" by (simp add: qs e)
qed

lemma bfs_sorted_nth:
  assumes "bfs_base w h d s" "i \<le> j" "j < tail s"
  shows "dist_arr s ! (q s ! i) \<le> dist_arr s ! (q s ! j)"
proof -
  have so: "sorted (map (\<lambda>p. dist_arr s ! p) (bfs_queue s))"
    using assms(1) by (simp add: bfs_base_def)
  have i: "i < tail s" using assms by simp
  note j = bfs_queue_nth[OF assms(1) assms(3)]
  note i' = bfs_queue_nth[OF assms(1) i]
  have "map (\<lambda>p. dist_arr s ! p) (bfs_queue s) ! i \<le> map (\<lambda>p. dist_arr s ! p) (bfs_queue s) ! j"
    using so assms(2) j(3) by (intro sorted_nth_mono) auto
  then show ?thesis using i'(2,3) j(2,3) by simp
qed

lemma bfs_level_of:
  assumes "bfs_base w h d s" "visited s p"
  obtains n where "dist_arr s ! p = int n" "level w h d n p"
  using assms unfolding bfs_base_def by blast

lemma bfs_step_ok:
  assumes w: "0 < w" and sz: "4 * (w * h) \<le> (2::nat) ^ 32"
    and ok: "bfs_ok w h d s" and b: "head s < tail s"
  shows "bfs_ok w h d (bfs_step w h d s) \<and> head (bfs_step w h d s) = head s + 1"
proof -
  have base: "bfs_base w h d s" and sd: "\<And>r. edge_pixel w h d r \<Longrightarrow> visited s r"
    and cl: "bfs_closed w h d (head s) s"
    and bl: "bfs_below w h d (dist_arr s ! (q s ! head s)) s"
    using ok b by (auto simp: bfs_ok_def)
  have len: "length (dist_arr s) = w * h" "length (q s) = w * h" "tail s \<le> w * h"
    using base by (auto simp: bfs_base_def)
  define p where "p = q s ! head s"
  have vp: "visited s p" unfolding p_def using bfs_queue_nth(1)[OF base b] .
  obtain m where m: "dist_arr s ! p = int m" "level w h d m p"
    using bfs_level_of[OF base vp] by blast
  have pl: "p < w * h" using vp len by (simp add: visited_def)
  define xn yn where "xn = p mod w" and "yn = p div w"
  have xn: "xn < w" using w by (simp add: xn_def)
  have yn: "yn < h" using pl by (simp add: yn_def div_lt_height)
  have pe: "p = yn * w + xn" by (simp add: xn_def yn_def)
  define s0 where "s0 = s\<lparr>head := head s + 1\<rparr>"
  define s1 where "s1 = relax w h d (int m) (int xn - 1, int yn) s0"
  define s2 where "s2 = relax w h d (int m) (int xn + 1, int yn) s1"
  define s3 where "s3 = relax w h d (int m) (int xn, int yn - 1) s2"
  define s4 where "s4 = relax w h d (int m) (int xn, int yn + 1) s3"
  have hl: "head s < length (q s)" using b len by simp
  have eq: "bfs_step w h d s = s4"
    using hl w m(1)
    by (simp add: bfs_step_def Let_def s4_def s3_def s2_def s1_def s0_def xn_def yn_def p_def)
  have v0: "\<And>r. visited s0 r \<longleftrightarrow> visited s r" by (simp add: visited_def s0_def)
  have q0: "bfs_queue s0 = bfs_queue s" "dist_arr s0 = dist_arr s" "q s0 = q s"
    "tail s0 = tail s" "head s0 = head s + 1"
    by (simp_all add: bfs_queue_def s0_def)
  have base0: "bfs_base w h d s0"
    using base b unfolding bfs_base_def by (simp add: q0 v0)
  have bl0: "bfs_below w h d (int m) s0"
    using bl m(1) unfolding bfs_below_def p_def[symmetric] by (simp add: v0 q0)
  have adj: "\<And>x' y'. x' < w \<Longrightarrow>
      (yn = y' \<and> (xn = x' + 1 \<or> x' = xn + 1)) \<or> (xn = x' \<and> (yn = y' + 1 \<or> y' = yn + 1)) \<Longrightarrow>
      adj4 w p (y' * w + x')"
    unfolding pe using adj4_coord[OF xn] by blast
  have 1: "bfs_base w h d s1 \<and> bfs_below w h d (int m) s1 \<and> bfs_ext s0 s1
       \<and> (xn > 0 \<and> opaque d (yn * w + (xn - 1)) \<longrightarrow> visited s1 (yn * w + (xn - 1)))"
    unfolding s1_def
    by (rule relax_guard[OF w sz base0 bl0 m(2)]) (use xn yn adj[of "xn - 1" yn] in auto)
  have 2: "bfs_base w h d s2 \<and> bfs_below w h d (int m) s2 \<and> bfs_ext s1 s2
       \<and> (xn + 1 < w \<and> opaque d (yn * w + (xn + 1)) \<longrightarrow> visited s2 (yn * w + (xn + 1)))"
    unfolding s2_def
    by (rule relax_guard[OF w sz _ _ m(2)]) (use 1 xn yn adj[of "xn + 1" yn] in auto)
  have 3: "bfs_base w h d s3 \<and> bfs_below w h d (int m) s3 \<and> bfs_ext s2 s3
       \<and> (yn > 0 \<and> opaque d ((yn - 1) * w + xn) \<longrightarrow> visited s3 ((yn - 1) * w + xn))"
    unfolding s3_def
    by (rule relax_guard[OF w sz _ _ m(2)]) (use 2 xn yn adj[of xn "yn - 1"] in auto)
  have 4: "bfs_base w h d s4 \<and> bfs_below w h d (int m) s4 \<and> bfs_ext s3 s4
       \<and> (yn + 1 < h \<and> opaque d ((yn + 1) * w + xn) \<longrightarrow> visited s4 ((yn + 1) * w + xn))"
    unfolding s4_def
    by (rule relax_guard[OF w sz _ _ m(2)]) (use 3 xn yn adj[of xn "yn + 1"] in auto)
  have e: "bfs_ext s1 s4" "bfs_ext s2 s4" "bfs_ext s3 s4" "bfs_ext s0 s4"
    using 1 2 3 4 by (blast intro: bfs_ext_trans)+
  have mono: "\<And>r. visited s r \<Longrightarrow> visited s4 r \<and> dist_arr s4 ! r = dist_arr s ! r"
    using e(4) by (simp add: bfs_ext_def v0 q0)
  have h4: "head s4 = head s + 1" using e(4) by (simp add: bfs_ext_def q0)
  have q4: "\<And>i. i < tail s \<Longrightarrow> q s4 ! i = q s ! i"
    using e(4) by (simp add: bfs_ext_def q0)
  have base4: "bfs_base w h d s4" and bl4: "bfs_below w h d (int m) s4" using 4 by auto
  have cl0: "bfs_closed w h d (head s) s0"
    using cl unfolding bfs_closed_def by (simp add: v0 q0)
  have cl4: "bfs_closed w h d (head s) s4"
  proof (rule bfs_ext_closed[OF cl0 e(4)])
    show "head s \<le> tail s0" using b by (simp add: q0)
  qed
  have closed: "bfs_closed w h d (head s4) s4"
    unfolding bfs_closed_def
  proof (intro allI impI)
    fix i r assume i: "i < head s4" and r: "r < w * h"
      and ar: "adj4 w (q s4 ! i) r \<and> opaque d r"
    show "visited s4 r"
    proof (cases "i < head s")
      case True
      then show ?thesis using cl4 r ar unfolding bfs_closed_def by blast
    next
      case False
      then have "i = head s" using i h4 by simp
      then have qp: "q s4 ! i = p" using q4[OF b] by (simp add: p_def)
      define x' y' where "x' = r mod w" and "y' = r div w"
      have x': "x' < w" using w by (simp add: x'_def)
      have re: "r = y' * w + x'" by (simp add: x'_def y'_def)
      have y': "y' < h" using r by (simp add: y'_def div_lt_height)
      have op: "opaque d (y' * w + x')" using ar re by simp
      have "adj4 w p r" using ar qp by simp
      then have "adj4 w (yn * w + xn) (y' * w + x')" by (simp only: pe[symmetric] re[symmetric])
      then have "(yn = y' \<and> (xn = x' + 1 \<or> x' = xn + 1)) \<or> (xn = x' \<and> (yn = y' + 1 \<or> y' = yn + 1))"
        using adj4_coord[OF xn x', of yn y'] by blast
      then consider (l) "y' = yn" "x' = xn - 1" "xn > 0" | (r) "y' = yn" "x' = xn + 1" "xn + 1 < w"
        | (u) "x' = xn" "y' = yn - 1" "yn > 0" | (d) "x' = xn" "y' = yn + 1" "yn + 1 < h"
        using x' y' by auto
      then show ?thesis
      proof cases
        case l
        then have "visited s1 (y' * w + x')" using 1 op by simp
        then show ?thesis using e(1) re by (simp add: bfs_ext_def)
      next
        case r
        then have "visited s2 (y' * w + x')" using 2 op by simp
        then show ?thesis using e(2) re by (simp add: bfs_ext_def)
      next
        case u
        then have "visited s3 (y' * w + x')" using 3 op by simp
        then show ?thesis using e(3) re by (simp add: bfs_ext_def)
      next
        case d
        then have "visited s4 (y' * w + x')" using 4 op by simp
        then show ?thesis using re by simp
      qed
    qed
  qed
  have below: "bfs_below w h d (dist_arr s4 ! (q s4 ! head s4)) s4" if ht: "head s4 < tail s4"
  proof -
    define c where "c = dist_arr s4 ! (q s4 ! head s4)"
    have "dist_arr s4 ! (q s4 ! head s) \<le> c"
      unfolding c_def using ht h4 by (intro bfs_sorted_nth[OF base4]) auto
    then have lo: "int m \<le> c" using q4[OF b] mono[OF vp] m(1) by (simp add: p_def)
    have vh: "visited s4 (q s4 ! head s4)" using bfs_queue_nth(1)[OF base4 ht] .
    then have hi: "c \<le> int m + 1" using bl4 by (simp add: bfs_below_def c_def)
    have le: "\<And>r. visited s4 r \<Longrightarrow> dist_arr s4 ! r \<le> c + 1"
      using bl4 lo unfolding bfs_below_def by fastforce
    have "visited s4 r" if lv: "level w h d n r" and nc: "int n \<le> c" for r n
    proof (cases "n \<le> m")
      case True
      then show ?thesis using bl4 lv unfolding bfs_below_def by (metis of_nat_le_iff)
    next
      case False
      then have n: "n = Suc m" and c: "c = int m + 1" using nc hi by auto
      have nr: "near w h d (Suc m) r" "\<not> near w h d m r" using lv n by (auto simp: level_def)
      then obtain r' where r': "adj4 w r' r" "near w h d m r'" using near_pred by blast
      obtain k where k: "k \<le> m" "level w h d k r'" using level_exists[OF r'(2)] by blast
      have rp: "r < w * h" "opaque d r" using nr(1) near_props by blast+
      have "k = m"
      proof (rule ccontr)
        assume "k \<noteq> m"
        then have "Suc k \<le> m" using k(1) by simp
        moreover have "near w h d (Suc k) r"
          using k(2) r'(1) rp by (intro near_step[of w h d k r']) (auto simp: level_def)
        ultimately have "near w h d m r" by (rule near_mono[rotated])
        then show False using nr(2) by simp
      qed
      then have lr': "level w h d m r'" using k(2) by simp
      then have vr': "visited s4 r'" using bl4 unfolding bfs_below_def by (metis order_refl)
      obtain k' where k': "dist_arr s4 ! r' = int k'" "level w h d k' r'"
        using bfs_level_of[OF base4 vr'] by blast
      then have dr': "dist_arr s4 ! r' = int m" using level_unique[OF lr' k'(2)] by simp
      have "r' \<in> set (bfs_queue s4)" using base4 vr' by (simp add: bfs_base_def)
      then obtain i where i: "i < length (bfs_queue s4)" "bfs_queue s4 ! i = r'"
        by (auto simp: in_set_conv_nth)
      then have it: "i < tail s4" "q s4 ! i = r'" by (auto simp: bfs_queue_def)
      have "i < head s4"
      proof (rule ccontr)
        assume "\<not> i < head s4"
        then have "dist_arr s4 ! (q s4 ! head s4) \<le> dist_arr s4 ! (q s4 ! i)"
          using it(1) by (intro bfs_sorted_nth[OF base4]) auto
        then show False using dr' it(2) c by (simp add: c_def)
      qed
      then show ?thesis using closed it(2) r'(1) rp unfolding bfs_closed_def by blast
    qed
    then show ?thesis unfolding bfs_below_def c_def[symmetric] using le by blast
  qed
  have "\<And>r. edge_pixel w h d r \<Longrightarrow> visited s4 r" using sd mono by blast
  then have "bfs_ok w h d s4"
    unfolding bfs_ok_def using base4 closed below by blast
  then show ?thesis unfolding eq using h4 by simp
qed


lemma bfs_init_seed: "bfs_seed w h d 0 (bfs_init w h)"
proof -
  have "\<And>p. \<not> visited (bfs_init w h) p" by (auto simp: visited_def bfs_init_def)
  then show ?thesis
    unfolding bfs_seed_def bfs_base_def bfs_queue_def by (simp add: bfs_init_def)
qed

lemma mark_edge_seed:
  assumes xy: "x < w" "y < h" and sd: "bfs_seed w h d (y * w + x) s"
  shows "bfs_seed w h d (Suc (y * w + x)) (mark_edge w h d y x s)"
proof -
  define p where "p = y * w + x"
  have base: "bfs_base w h d s" and h0: "head s = 0"
    and vs: "\<And>r. visited s r \<longleftrightarrow> r < p \<and> edge_pixel w h d r"
    and d0: "\<And>r. visited s r \<Longrightarrow> dist_arr s ! r = 0"
    using sd by (auto simp: bfs_seed_def p_def)
  have pl: "p < w * h" unfolding p_def using xy by (rule coord_lt)
  have ep: "edge_pixel w h d p \<longleftrightarrow> opaque d p \<and> isEdge w h d x y"
    unfolding p_def by (rule isEdge_edge_pixel[OF xy])
  show ?thesis
  proof (cases "edge_pixel w h d p")
    case False
    then have "mark_edge w h d y x s = s"
      using ep by (auto simp: mark_edge_def Let_def p_def opaque_def)
    moreover have "\<And>r. visited s r \<longleftrightarrow> r < Suc p \<and> edge_pixel w h d r"
      using vs False by (auto simp: less_Suc_eq)
    ultimately show ?thesis using base h0 d0 by (simp add: bfs_seed_def p_def)
  next
    case True
    define s' where "s' = s\<lparr>dist_arr := (dist_arr s)[p := int 0], q := (q s)[tail s := p],
        tail := tail s + 1\<rparr>"
    have eq: "mark_edge w h d y x s = s'"
      using True ep by (auto simp: mark_edge_def Let_def p_def opaque_def s'_def)
    have nv: "\<not> visited s p" by (simp add: vs)
    have lv: "level w h d 0 p" using True by (simp add: level_def)
    have le: "\<And>r. visited s r \<Longrightarrow> dist_arr s ! r \<le> int 0" using d0 by simp
    note push = bfs_push[OF base pl nv lv le s'_def]
    have "\<And>r. visited s' r \<longleftrightarrow> r < Suc p \<and> edge_pixel w h d r"
      using push(3) vs True by (auto simp: less_Suc_eq)
    moreover have "\<And>r. visited s' r \<Longrightarrow> dist_arr s' ! r = 0"
      using push(2,3,4) d0 by (auto simp: bfs_ext_def)
    moreover have "head s' = 0" using h0 by (simp add: s'_def)
    ultimately show ?thesis using push(1) unfolding eq by (simp add: bfs_seed_def p_def)
  qed
qed

lemma seed_edges_seed:
  "bfs_seed w h d (h * w) (seed_edges w h d (bfs_init w h))"
  unfolding seed_edges_def
proof (rule fold_upt_inv[where P = "\<lambda>y. bfs_seed w h d (y * w)"])
  show "bfs_seed w h d (0 * w) (bfs_init w h)" using bfs_init_seed by simp
next
  fix y s assume y: "y < h" and s: "bfs_seed w h d (y * w) s"
  have "bfs_seed w h d (y * w + w) (fold (mark_edge w h d y) [0..<w] s)"
  proof (rule fold_upt_inv[where P = "\<lambda>x. bfs_seed w h d (y * w + x)"])
    show "bfs_seed w h d (y * w + 0) s" using s by simp
  next
    fix x s' assume "x < w" "bfs_seed w h d (y * w + x) s'"
    then show "bfs_seed w h d (y * w + Suc x) (mark_edge w h d y x s')"
      using mark_edge_seed[OF _ y, of x w d s'] by simp
  qed
  then show "bfs_seed w h d (Suc y * w) (fold (mark_edge w h d y) [0..<w] s)"
    by (simp add: add.commute)
qed

lemma seed_edges_ok: "bfs_ok w h d (seed_edges w h d (bfs_init w h))"
proof -
  define s where "s = seed_edges w h d (bfs_init w h)"
  have base: "bfs_base w h d s" and h0: "head s = 0"
    and vs: "\<And>r. visited s r \<longleftrightarrow> r < h * w \<and> edge_pixel w h d r"
    and d0: "\<And>r. visited s r \<Longrightarrow> dist_arr s ! r = 0"
    using seed_edges_seed[of w h d] by (auto simp: bfs_seed_def s_def)
  have ed: "\<And>r. edge_pixel w h d r \<Longrightarrow> visited s r"
    by (simp add: vs) (simp add: edge_pixel_def mult.commute)
  have "bfs_below w h d (dist_arr s ! (q s ! head s)) s" if "head s < tail s"
  proof -
    have "visited s (q s ! head s)" using bfs_queue_nth(1)[OF base that] .
    then have c: "dist_arr s ! (q s ! head s) = 0" by (rule d0)
    have "\<And>r n. level w h d n r \<Longrightarrow> int n \<le> 0 \<Longrightarrow> visited s r"
      using ed by (auto simp: level_def)
    then show ?thesis unfolding bfs_below_def c using d0 by auto
  qed
  moreover have "bfs_closed w h d (head s) s" by (simp add: bfs_closed_def h0)
  ultimately show ?thesis using base ed unfolding bfs_ok_def s_def[symmetric] by blast
qed

lemma bfs_loop_result:
  assumes w: "0 < w" and sz: "4 * (w * h) \<le> (2::nat) ^ 32" and ok: "bfs_ok w h d s"
  shows "\<exists>t. bfs_loop w h d s = Some t \<and> bfs_ok w h d t \<and> head t = tail t"
proof -
  have step: "\<And>s. bfs_ok w h d s \<Longrightarrow> head s < tail s \<Longrightarrow>
      bfs_ok w h d (bfs_step w h d s) \<and> w * h - head (bfs_step w h d s) < w * h - head s"
  proof -
    fix s assume a: "bfs_ok w h d s" "head s < tail s"
    then have "tail s \<le> w * h" by (simp add: bfs_ok_def bfs_base_def)
    then show "bfs_ok w h d (bfs_step w h d s) \<and> w * h - head (bfs_step w h d s) < w * h - head s"
      using bfs_step_ok[OF w sz a] a(2) by simp
  qed
  have "\<exists>t. while_option (\<lambda>s. head s < tail s) (bfs_step w h d) s = Some t"
    by (rule measure_while_option_Some[where P = "bfs_ok w h d" and f = "\<lambda>s. w * h - head s"])
      (use step ok in auto)
  then obtain t where t: "while_option (\<lambda>s. head s < tail s) (bfs_step w h d) s = Some t" ..
  have okt: "bfs_ok w h d t"
    by (rule while_option_rule[where P = "bfs_ok w h d", OF _ t ok]) (use step in auto)
  moreover have "\<not> head t < tail t" using while_option_stop[OF t] .
  moreover have "head t \<le> tail t" using okt by (simp add: bfs_ok_def bfs_base_def)
  ultimately show ?thesis using t by (simp add: bfs_loop_def)
qed

lemma bfs_complete:
  assumes ok: "bfs_ok w h d t" and e: "head t = tail t"
  shows "near w h d n p \<Longrightarrow> visited t p"
proof (induction n arbitrary: p)
  case 0
  then show ?case using ok by (simp add: bfs_ok_def)
next
  case (Suc n)
  show ?case
  proof (cases "near w h d n p")
    case True
    then show ?thesis by (rule Suc.IH)
  next
    case False
    then obtain r where r: "adj4 w r p" "near w h d n r" using near_pred[OF Suc.prems] by blast
    have p: "p < w * h" "opaque d p" using near_props[OF Suc.prems] by auto
    have base: "bfs_base w h d t" using ok by (simp add: bfs_ok_def)
    have "visited t r" using r(2) by (rule Suc.IH)
    then have "r \<in> set (bfs_queue t)" using base by (simp add: bfs_base_def)
    then obtain i where i: "i < length (bfs_queue t)" "bfs_queue t ! i = r"
      by (auto simp: in_set_conv_nth)
    then have "i < head t" "q t ! i = r" using e by (auto simp: bfs_queue_def)
    then show ?thesis using ok r(1) p unfolding bfs_ok_def bfs_closed_def by blast
  qed
qed

lemma bfs_distances:
  assumes w: "0 < w" "0 < h" and sz: "4 * (w * h) \<le> (2::nat) ^ 32"
  shows "\<exists>t. bfs_loop w h d (seed_edges w h d (bfs_init w h)) = Some t \<and>
           length (dist_arr t) = w * h \<and>
           (\<forall>p < w * h. opaque d p \<longrightarrow>
              (dist_arr t ! p > KEEP_EDGE_PX \<longleftrightarrow> \<not> near w h d 2 p))"
proof -
  from bfs_loop_result[OF w(1) sz seed_edges_ok] obtain t
    where t: "bfs_loop w h d (seed_edges w h d (bfs_init w h)) = Some t"
      "bfs_ok w h d t" "head t = tail t" by blast
  have base: "bfs_base w h d t" using t(2) by (simp add: bfs_ok_def)
  have "dist_arr t ! p > KEEP_EDGE_PX \<longleftrightarrow> \<not> near w h d 2 p" if p: "p < w * h" "opaque d p" for p
  proof -
    define x y where "x = p mod w" and "y = p div w"
    have x: "x < w" using w by (simp add: x_def)
    have y: "y < h" using p(1) by (simp add: y_def div_lt_height)
    have pe: "p = y * w + x" by (simp add: x_def y_def)
    have "near w h d x p" using near_x[OF y x, of d] p(2) by (simp add: pe)
    then have vp: "visited t p" by (rule bfs_complete[OF t(2,3)])
    have "\<exists>n. dist_arr t ! p = int n \<and> level w h d n p"
      by (rule bfs_level_of[OF base vp]) blast
    then obtain n where n: "dist_arr t ! p = int n" "level w h d n p" by blast
    show ?thesis
    proof (cases "n \<le> 2")
      case True
      have "near w h d n p" using n(2) unfolding level_def by blast
      then have "near w h d 2 p" using True by (rule near_mono)
      then show ?thesis using True n(1) by (simp only: KEEP_EDGE_PX_def) simp
    next
      case False
      have "\<not> near w h d 2 p"
      proof
        assume "near w h d 2 p"
        with n(2) have "n \<le> 2" by (rule level_near_le)
        then show False using False by simp
      qed
      then show ?thesis using False n(1) by (simp only: KEEP_EDGE_PX_def) simp
    qed
  qed
  moreover have "length (dist_arr t) = w * h" using base by (simp add: bfs_base_def)
  ultimately show ?thesis using t(1) by blast
qed


lemma clamp_alpha_length: "length (clamp_alpha dst p d) = length d"
  by (simp add: clamp_alpha_def)

lemma clamp_alpha_nth:
  assumes "j < length d"
  shows "clamp_alpha dst p d ! j =
     (if j mod 4 = 3 \<and> j div 4 = p \<and> opaque d p \<and> p < length dst \<and> dst ! p > KEEP_EDGE_PX
      then 255 else d ! j)"
proof (cases "j = p * 4 + 3")
  case True
  then have "j mod 4 = 3" "j div 4 = p" by presburger+
  then show ?thesis
    using assms True by (simp add: clamp_alpha_def opaque_def)
next
  case False
  then have "\<not> (j mod 4 = 3 \<and> j div 4 = p)" by presburger
  then show ?thesis
    using assms False by (auto simp: clamp_alpha_def)
qed

lemma clamp_fold:
  "length (fold (clamp_alpha dst) [0..<n] d) = length d \<and>
   (\<forall>j < length d. fold (clamp_alpha dst) [0..<n] d ! j =
        (if j mod 4 = 3 \<and> j div 4 < n \<and> opaque d (j div 4) \<and> j div 4 < length dst \<and>
            dst ! (j div 4) > KEEP_EDGE_PX
         then 255 else d ! j))"
proof (induction n)
  case 0
  then show ?case by simp
next
  case (Suc n)
  define d1 where "d1 = fold (clamp_alpha dst) [0..<n] d"
  have l1: "length d1 = length d"
    and v1: "\<And>j. j < length d \<Longrightarrow>
        d1 ! j = (if j mod 4 = 3 \<and> j div 4 < n \<and> opaque d (j div 4) \<and> j div 4 < length dst \<and>
            dst ! (j div 4) > KEEP_EDGE_PX then 255 else d ! j)"
    using Suc.IH by (auto simp: d1_def)
  have a: "alphaAt d1 n = alphaAt d n"
    using v1[of "n * 4 + 3"] l1 by (simp add: alphaAt_def)
  then have h: "opaque d1 n = opaque d n" by (simp add: opaque_def)
  have e: "fold (clamp_alpha dst) [0..<Suc n] d = clamp_alpha dst n d1" by (simp add: d1_def)
  show ?case
    unfolding e
    using clamp_alpha_nth[of _ d1 dst n] l1 v1 h
    by (auto simp: less_Suc_eq clamp_alpha_length)
qed

lemma phase2_result:
  assumes wf: "wf_png img"
  shows "\<exists>out. phase2 img = Some out \<and> width out = width img \<and> height out = height img \<and>
           length (data out) = length (data img) \<and>
           (\<forall>j < length (data img). data out ! j =
              (if j mod 4 = 3 \<and> opaque (data img) (j div 4) \<and>
                  \<not> near (width img) (height img) (data img) 2 (j div 4)
               then 255 else data img ! j))"
proof -
  define w h d where "w = width img" and "h = height img" and "d = data img"
  have wh: "0 < w" "0 < h" and len: "length d = 4 * (w * h)" and sz: "4 * (w * h) \<le> 2 ^ 32"
    using wf by (auto simp: wf_png_def w_def h_def d_def)
  from bfs_distances[OF wh sz, of d] obtain t
    where t: "bfs_loop w h d (seed_edges w h d (bfs_init w h)) = Some t"
      and lt: "length (dist_arr t) = w * h"
      and dt: "\<And>p. p < w * h \<Longrightarrow> opaque d p \<Longrightarrow>
                (dist_arr t ! p > KEEP_EDGE_PX \<longleftrightarrow> \<not> near w h d 2 p)" by blast
  define out where "out = img\<lparr>data := fold (clamp_alpha (dist_arr t)) [0..<w * h] d\<rparr>"
  have p2: "phase2 img = Some out"
    using t by (simp add: phase2_def Let_def out_def w_def h_def d_def)
  have jl: "\<And>j. j < length d \<Longrightarrow> j div 4 < w * h" using len by simp
  have "data out ! j =
      (if j mod 4 = 3 \<and> opaque d (j div 4) \<and> \<not> near w h d 2 (j div 4) then 255 else d ! j)"
    if j: "j < length d" for j
  proof -
    have "data out ! j = (if j mod 4 = 3 \<and> j div 4 < w * h \<and> opaque d (j div 4) \<and>
        j div 4 < length (dist_arr t) \<and> dist_arr t ! (j div 4) > KEEP_EDGE_PX then 255 else d ! j)"
      using clamp_fold[of "dist_arr t" "w * h" d] j by (simp add: out_def)
    then show ?thesis using jl[OF j] lt dt[OF jl[OF j]] by auto
  qed
  moreover have "length (data out) = length d"
    using clamp_fold[of "dist_arr t" "w * h" d] by (simp add: out_def)
  ultimately show ?thesis
    using p2 unfolding w_def h_def d_def by (simp add: out_def)
qed

lemma phase1_wf:
  assumes "wf_png img" "phase1 img = Some out"
  shows "wf_png out"
  using phase1_result[OF assms(1)] assms by (auto simp: wf_png_def)

lemma dropWhile_all_iff: "(\<forall>x \<in> set (dropWhile P xs). P x) \<longleftrightarrow> (\<forall>x \<in> set xs. P x)"
  by (induction xs) auto

lemma trim_empty_iff: "trim s = [] \<longleftrightarrow> blank s"
  by (simp add: trim_def blank_def dropWhile_eq_Nil_conv dropWhile_all_iff)

lemma items_of_survivors:
  "items_of itemsIn = map normalise_item (filter (\<lambda>x. \<not> blank (raw_message x)) itemsIn)"
proof -
  have "\<And>x. length (message (normalise_item x)) > 0 \<longleftrightarrow> \<not> blank (raw_message x)"
    by (simp add: normalise_item_def raw_message_def trim_empty_iff)
  then show ?thesis by (simp add: items_of_def filter_map comp_def)
qed

lemma assign_loop_eq:
  "i \<le> length items \<Longrightarrow>
   assign_loop e ts items i os ls =
     (os @ map (\<lambda>k. \<lparr>oi_custom_id = custom_id_of ts k, oi_message = message (items ! k),
                        oi_keyword = keyword (items ! k)\<rparr>) [i..<length items],
      ls @ map (\<lambda>k. line_of e (custom_id_of ts k) (items ! k)) [i..<length items])"
proof (induction e ts items i os ls rule: assign_loop.induct)
  case (1 e ts items i outItems lines)
  show ?case
  proof (cases "i < length items")
    case True
    then have u: "[i..<length items] = i # [i + 1..<length items]"
      by (simp add: upt_conv_Cons)
    have "assign_loop e ts items i outItems lines =
          assign_loop e ts items (i + 1)
             (outItems @ [\<lparr>oi_custom_id = custom_id_of ts i, oi_message = message (items ! i),
                           oi_keyword = keyword (items ! i)\<rparr>])
             (lines @ [line_of e (custom_id_of ts i) (items ! i)])"
      using True by (subst assign_loop.simps) (simp add: Let_def)
    also have "\<dots> = (outItems @ map (\<lambda>k. \<lparr>oi_custom_id = custom_id_of ts k,
                        oi_message = message (items ! k),
                        oi_keyword = keyword (items ! k)\<rparr>) [i..<length items],
      lines @ map (\<lambda>k. line_of e (custom_id_of ts k) (items ! k)) [i..<length items])"
      using "1.IH"[OF True refl refl] True by (simp only: u) simp
    finally show ?thesis .
  next
    case False
    with "1.prems" show ?thesis
      by (subst assign_loop.simps) simp
  qed
qed

lemma csv_POST_submits:
  assumes key: "\<not> key_missing (OPENAI_API_KEY e)"
    and surv: "surv = filter (\<lambda>x. \<not> blank (raw_message x)) itemsIn" "surv \<noteq> []"
    and ls: "lines = map (\<lambda>i. line_of e (custom_id_of (Date_now e) i) (normalise_item (surv ! i)))
                      [0..<length surv]"
    and os: "outItems = map (\<lambda>i. \<lparr>oi_custom_id = custom_id_of (Date_now e) i,
                                  oi_message = trim (raw_message (surv ! i)),
                                  oi_keyword = trim (raw_keyword (surv ! i))\<rparr>) [0..<length surv]"
    and js: "jsonl = join newline (map (stringify e) lines) @ newline"
  shows "\<exists>r calls. csv_POST e (ItemsArray itemsIn) = (r, UploadFile jsonl # calls) \<and>
           (code r = 200 \<longrightarrow> (\<exists>bid. body r = BatchCreated bid outItems))"
proof -
  define items where "items = items_of itemsIn"
  have it: "items = map normalise_item surv" by (simp add: items_def items_of_survivors surv)
  then have ne: "length items \<noteq> 0" and li: "length items = length surv" using surv(2) by auto
  have nth: "\<And>i. i < length surv \<Longrightarrow> items ! i = normalise_item (surv ! i)" by (simp add: it)
  have o: "outItems = map (\<lambda>k. \<lparr>oi_custom_id = custom_id_of (Date_now e) k,
        oi_message = message (items ! k), oi_keyword = keyword (items ! k)\<rparr>) [0..<length items]"
    unfolding os li
    by (rule map_cong[OF refl]) (simp add: nth normalise_item_def raw_message_def raw_keyword_def)
  have l: "lines = map (\<lambda>k. line_of e (custom_id_of (Date_now e) k) (items ! k)) [0..<length items]"
    unfolding ls li by (rule map_cong[OF refl]) (simp add: nth)
  have al: "assign_loop e (Date_now e) items 0 [] [] = (outItems, lines)"
    by (simp add: assign_loop_eq o l)
  show ?thesis
    using key ne
    by (auto simp: csv_POST_def Let_def items_def[symmetric] al js newline_def json_reply_def
        split: fetched.splits)
qed

lemma csv_POST_nothing_valid:
  assumes "pl = ItemsNotArray \<or> (\<exists>xs. pl = ItemsArray xs \<and> (\<forall>x \<in> set xs. blank (raw_message x)))"
  shows "csv_POST e pl =
     (if key_missing (OPENAI_API_KEY e)
      then json_reply (ErrorBody (lit ''OPENAI_API_KEY is not set on the server.'')) 500
      else json_reply (ErrorBody (lit ''No valid items in payload.'')) 400, [])"
proof -
  have "items_of (case pl of ItemsArray xs \<Rightarrow> xs | _ \<Rightarrow> []) = []"
    using assms by (auto simp: items_of_survivors items_of_def)
  then show ?thesis using assms by (auto simp: csv_POST_def Let_def)
qed

lemma csv_POST_upload_failed:
  assumes "\<not> key_missing (OPENAI_API_KEY e)" "items_of itemsIn \<noteq> []"
    and "\<And>j. upload e j = Resp upRes" "\<not> ok upRes"
  shows "fst (csv_POST e (ItemsArray itemsIn)) =
     json_reply (ErrorBody (lit ''OpenAI file upload failed ('' @ String_of_nat (status upRes)
                            @ lit ''): '' @ take 200 (text_body upRes))) 502"
  using assms
  by (simp add: csv_POST_def Let_def upstream_error_def slice0_def lit_def split: prod.splits)

lemma csv_POST_create_failed:
  assumes "\<not> key_missing (OPENAI_API_KEY e)" "items_of itemsIn \<noteq> []"
    and "\<And>j. upload e j = Resp upRes" "ok upRes"
    and "create_batch e (json_id upRes) = Resp batchRes" "\<not> ok batchRes"
  shows "fst (csv_POST e (ItemsArray itemsIn)) =
     json_reply (ErrorBody (lit ''OpenAI batch create failed ('' @ String_of_nat (status batchRes)
                            @ lit ''): '' @ take 200 (text_body batchRes))) 502"
  using assms
  by (simp add: csv_POST_def Let_def upstream_error_def slice0_def lit_def split: prod.splits)

lemma batch_GET_upstream_failed:
  assumes "\<not> key_missing (OPENAI_API_KEY e)" "batchId \<noteq> []" "customId \<noteq> []"
    and "fst (tryGetBatchResultImageBase64 e 0 batchId customId) = Inl err"
  shows "batch_GET e (Some batchId) (Some customId) =
     Some (json_reply (ErrorBody (lit ''Unexpected server error in /api/batch'')) 500)"
  using assms by (simp add: batch_GET_def)

lemma tryGet_throws_diagnostic:
  assumes "query_status e k batchId = Resp stRes"
  shows "\<not> ok stRes \<Longrightarrow> fst (tryGetBatchResultImageBase64 e k batchId customId) =
           Inl (lit ''OpenAI batch status failed ('' @ String_of_nat (status stRes)
                @ lit ''): '' @ take 200 (text_body stRes))"
    and "ok stRes \<Longrightarrow> json_status stRes = lit ''completed'' \<Longrightarrow>
         json_output_file_id stRes = Some outId \<Longrightarrow> outId \<noteq> [] \<Longrightarrow>
         fetch_content e outId = Resp outRes \<Longrightarrow> \<not> ok outRes \<Longrightarrow>
         fst (tryGetBatchResultImageBase64 e k batchId customId) =
           Inl (lit ''OpenAI batch output fetch failed ('' @ String_of_nat (status outRes)
                @ lit ''): '' @ take 200 (text_body outRes))"
  using assms
  by (simp_all add: tryGetBatchResultImageBase64_def upstream_error_def slice0_def lit_def)

lemma generate_GET_upstream_failed:
  assumes "\<not> key_missing (OPENAI_API_KEY e)" "USE_BATCH e"
    and "createSingleImageBatch e (generation_body e (buildPrompt e msg kw)) = Inl err"
  shows "generate_GET e msg kw =
     Some (json_reply (ErrorBody (lit ''Unexpected server error in /api/generate'')) 500)"
  using assms by (simp add: generate_GET_def Let_def)

lemma scan_lines_find:
  "scan_lines parse customId ls =
     (case find (\<lambda>l. matching parse customId l \<noteq> None) ls of
        None \<Rightarrow> None
      | Some l \<Rightarrow> matching parse customId l)"
  by (induction ls) (auto simp: matching_def split: parsed_line.splits option.splits)

lemma tryGet_cases:
  assumes "query_status e k batchId = Resp stRes" "ok stRes"
  shows "json_status stRes \<noteq> lit ''completed'' \<Longrightarrow>
           tryGetBatchResultImageBase64 e k batchId customId =
             (Inr (NotDone (json_status stRes)), [QueryStatus batchId])"
    and "json_status stRes = lit ''completed'' \<Longrightarrow>
         json_output_file_id stRes = Some outId \<Longrightarrow> outId \<noteq> [] \<Longrightarrow>
         fetch_content e outId = Resp outRes \<Longrightarrow> ok outRes \<Longrightarrow>
         tryGetBatchResultImageBase64 e k batchId customId =
           (case find (\<lambda>l. matching (JSON_parse e) customId l \<noteq> None) (records (text_body outRes)) of
              Some l \<Rightarrow> Inr (Done (the (matching (JSON_parse e) customId l)))
            | None \<Rightarrow> Inl (lit ''Batch completed but no matching image result was found.''),
            [QueryStatus batchId, FetchContent outId])"
proof -
  show "json_status stRes \<noteq> lit ''completed'' \<Longrightarrow>
           tryGetBatchResultImageBase64 e k batchId customId =
             (Inr (NotDone (json_status stRes)), [QueryStatus batchId])"
    using assms by (simp add: tryGetBatchResultImageBase64_def)
next
  assume a: "json_status stRes = lit ''completed''" "json_output_file_id stRes = Some outId"
    "outId \<noteq> []" "fetch_content e outId = Resp outRes" "ok outRes"
  have "\<And>l. find (\<lambda>l. matching (JSON_parse e) customId l \<noteq> None) (records (text_body outRes)) = Some l
      \<Longrightarrow> matching (JSON_parse e) customId l \<noteq> None"
    by (auto simp: find_Some_iff)
  then show "tryGetBatchResultImageBase64 e k batchId customId =
           (case find (\<lambda>l. matching (JSON_parse e) customId l \<noteq> None) (records (text_body outRes)) of
              Some l \<Rightarrow> Inr (Done (the (matching (JSON_parse e) customId l)))
            | None \<Rightarrow> Inl (lit ''Batch completed but no matching image result was found.''),
            [QueryStatus batchId, FetchContent outId])"
    using assms a
    by (auto simp: tryGetBatchResultImageBase64_def Let_def scan_lines_find records_def
        split: option.splits)
qed

lemma timer_delay_pos: "0 < timer_delay ms"
  by (simp add: timer_delay_def)

lemma timer_delay_le: "timer_delay ms \<le> max 1 ms"
  by (simp add: timer_delay_def)

lemma poll_loop_time:
  "started \<le> now \<Longrightarrow> now - started < T + timer_delay I \<Longrightarrow>
   snd (poll_loop T I poll started now k) - started < T + timer_delay I"
proof (induction T I poll started now k rule: poll_loop.induct)
  case (1 T I poll started now k)
  show ?case
  proof (cases "now - started < T")
    case False
    then show ?thesis using "1.prems" by (subst poll_loop.simps) simp
  next
    case True
    show ?thesis
    proof (cases "poll k")
      case (Inl err)
      then show ?thesis using True "1.prems" by (subst poll_loop.simps) simp
    next
      case (Inr r)
      show ?thesis
      proof (cases r)
        case (Done b64)
        then show ?thesis using True Inr "1.prems" by (subst poll_loop.simps) simp
      next
        case (NotDone st)
        have "snd (poll_loop T I poll started (now + timer_delay I) (k + 1)) - started
              < T + timer_delay I"
          using True "1.prems" by (intro "1.IH"[OF True Inr NotDone]) auto
        then show ?thesis using True Inr NotDone by (subst poll_loop.simps) simp
      qed
    qed
  qed
qed

lemma poll_loop_found:
  "started \<le> now \<Longrightarrow> (\<forall>j < n. \<exists>st. poll (k + j) = Inr (NotDone st)) \<Longrightarrow>
   poll (k + n) = Inr (Done b) \<Longrightarrow> now + n * timer_delay I - started < T \<Longrightarrow>
   poll_loop T I poll started now k = (Inr (Some b), now + n * timer_delay I)"
proof (induction n arbitrary: now k)
  case 0
  then show ?case by (subst poll_loop.simps) simp
next
  case (Suc n)
  from Suc.prems(2) obtain st where st: "poll k = Inr (NotDone st)" by force
  have lt: "now - started < T" using Suc.prems(1,4) by simp
  have "poll_loop T I poll started (now + timer_delay I) (k + 1)
        = (Inr (Some b), now + timer_delay I + n * timer_delay I)"
  proof (rule Suc.IH)
    show "started \<le> now + timer_delay I" using Suc.prems(1) by simp
    show "\<forall>j<n. \<exists>st. poll (k + 1 + j) = Inr (NotDone st)"
      using Suc.prems(2) by (metis Suc_less_eq add_Suc_right add_Suc_shift Suc_eq_plus1)
    show "poll (k + 1 + n) = Inr (Done b)" using Suc.prems(3) by simp
    show "now + timer_delay I + n * timer_delay I - started < T" using Suc.prems(4) by (simp add: add.assoc)
  qed
  then show ?case using lt st by (subst poll_loop.simps) (simp add: add.assoc)
qed

lemma poll_loop_pending:
  "started \<le> now \<Longrightarrow>
   (\<forall>j. now + j * timer_delay I - started < T \<longrightarrow> (\<exists>st. poll (k + j) = Inr (NotDone st))) \<Longrightarrow>
   fst (poll_loop T I poll started now k) = Inr None \<and>
   T \<le> snd (poll_loop T I poll started now k) - started"
proof (induction T I poll started now k rule: poll_loop.induct)
  case (1 T I poll started now k)
  show ?case
  proof (cases "now - started < T")
    case False
    then show ?thesis by (subst (1 2) poll_loop.simps) simp
  next
    case True
    then obtain st where st: "poll k = Inr (NotDone st)" using "1.prems"(2)[rule_format, of 0] by auto
    have "fst (poll_loop T I poll started (now + timer_delay I) (k + 1)) = Inr None \<and>
        T \<le> snd (poll_loop T I poll started (now + timer_delay I) (k + 1)) - started"
    proof (rule "1.IH"[OF True st refl])
      show "started \<le> now + timer_delay I" using "1.prems"(1) by simp
      show "\<forall>j. now + timer_delay I + j * timer_delay I - started < T \<longrightarrow>
          (\<exists>st. poll (k + 1 + j) = Inr (NotDone st))"
      proof (intro allI impI)
        fix j assume "now + timer_delay I + j * timer_delay I - started < T"
        then have "now + Suc j * timer_delay I - started < T" by (simp add: add.assoc)
        then show "\<exists>st. poll (k + 1 + j) = Inr (NotDone st)"
          using "1.prems"(2)[rule_format, of "Suc j"] by simp
      qed
    qed
    then show ?thesis using True st by (subst (1 2) poll_loop.simps) simp
  qed
qed

lemma poll_loop_budget: "snd (poll_loop T I poll s s 0) - s \<le> T + I"
proof -
  have "snd (poll_loop T I poll s s 0) - s < T + timer_delay I"
    using timer_delay_pos[of I] by (intro poll_loop_time) auto
  then show ?thesis by (auto simp: timer_delay_def split: if_splits)
qed

lemma generate_GET_pending:
  assumes "\<not> key_missing (OPENAI_API_KEY e)" "USE_BATCH e"
    and "createSingleImageBatch e (generation_body e (buildPrompt e msg kw)) = Inr (bid, cid)"
    and "fst (poll_loop (BATCH_POLL_TIMEOUT_MS e) (BATCH_POLL_INTERVAL_MS e)
               (\<lambda>k. fst (tryGetBatchResultImageBase64 e k bid cid)) (Date_now e) (Date_now e) 0)
         = Inr None"
  shows "generate_GET e msg kw = Some (json_reply (PendingBody bid cid) 202)"
  using assms by (simp add: generate_GET_def Let_def)

lemma alpha_normalise_total:
  assumes "wf_png img"
  shows "\<exists>out. alpha_normalise img = Some out"
proof -
  have "\<exists>img1. phase1 img = Some img1"
    using phase1_result[OF assms] by (elim exE conjE) (rule exI)
  then obtain img1 where 1: "phase1 img = Some img1" ..
  have w1: "wf_png img1" using assms 1 by (rule phase1_wf)
  have "\<exists>out. phase2 img1 = Some out"
    using phase2_result[OF w1] by (elim exE conjE) (rule exI)
  then obtain out where "phase2 img1 = Some out" ..
  then show ?thesis using 1 by (simp add: alpha_normalise_def)
qed

lemma makeInteriorOpaque_returns:
  assumes "\<And>b img. PNG_read e b = Some img \<Longrightarrow> wf_png img"
  shows "(PNG_read e (from_base64 e b64) = None \<and> makeInteriorOpaquePngBase64 e b64 = Some Thrown)
       \<or> (\<exists>fixed. makeInteriorOpaquePngBase64 e b64 = Some (Returned fixed))"
proof (cases "PNG_read e (from_base64 e b64)")
  case None
  then show ?thesis by (simp add: makeInteriorOpaquePngBase64_def)
next
  case (Some img)
  then obtain out where "alpha_normalise img = Some out"
    using alpha_normalise_total[OF assms[OF Some]] by blast
  then show ?thesis using Some by (simp add: makeInteriorOpaquePngBase64_def)
qed

lemma respond_with_image_cases:
  assumes "\<And>b img. PNG_read e b = Some img \<Longrightarrow> wf_png img"
  shows "(\<exists>buf. respond_with_image e b64 = Some \<lparr>code = 200, body = ImageBody buf\<rparr>) \<and>
     (PNG_read e (from_base64 e b64) = None \<longrightarrow>
        respond_with_image e b64 = Some \<lparr>code = 200, body = ImageBody (from_base64 e b64)\<rparr>) \<and>
     (\<forall>fixed. makeInteriorOpaquePngBase64 e b64 = Some (Returned fixed) \<and>
        PNG_read e (from_base64 e fixed) = None \<longrightarrow>
        respond_with_image e b64 = Some \<lparr>code = 200, body = ImageBody (from_base64 e fixed)\<rparr>)"
proof -
  have "(PNG_read e (from_base64 e b64) = None \<and> makeInteriorOpaquePngBase64 e b64 = Some Thrown)
       \<or> (\<exists>fixed. makeInteriorOpaquePngBase64 e b64 = Some (Returned fixed))"
    by (rule makeInteriorOpaque_returns) (rule assms)
  moreover have "PNG_read e (from_base64 e b64) = None \<Longrightarrow>
      makeInteriorOpaquePngBase64 e b64 = Some Thrown"
    by (simp add: makeInteriorOpaquePngBase64_def)
  ultimately show ?thesis
    by (auto simp: respond_with_image_def Let_def resize_stage_def)
qed








lemma phase1_ex: "wf_png img \<Longrightarrow> \<exists>out. phase1 img = Some out \<and> phase1_post img out"
  unfolding phase1_post_def by (rule phase1_result)

lemma phase2_ex: "wf_png img \<Longrightarrow> \<exists>out. phase2 img = Some out \<and> phase2_post img out"
  unfolding phase2_post_def by (rule phase2_result)

lemma pixel_index:
  assumes "length d = 4 * n" "p < n" "c < 4"
  shows "p * 4 + c < length d" "(p * 4 + c) div 4 = p" "(p * 4 + c) mod 4 = c"
  using assms by auto

lemma rgba_eq:
  "rgba d p = rgba d' p \<longleftrightarrow> (\<forall>c < 4. d ! (p * 4 + c) = d' ! (p * 4 + c))"
proof -
  have "\<And>P. (\<forall>c < 4. P (c::nat)) \<longleftrightarrow> P 0 \<and> P 1 \<and> P 2 \<and> P 3"
    by (auto simp: less_Suc_eq numeral_eq_Suc)
  then show ?thesis by (simp add: rgba_def)
qed

lemma ring_transparent: "p < 9 \<Longrightarrow> transparent (data ring_png) p \<longleftrightarrow> p = 0 \<or> p = 4"
proof -
  assume "p < 9"
  then have "p \<in> {0, 1, 2, 3, 4, 5, 6, 7, 8}" by auto
  then show ?thesis
    by (auto simp: transparent_def alphaAt_def ring_png_def)
qed

lemma ring_reach: "border_reach 3 3 (data ring_png) n p \<Longrightarrow> p = 0"
proof (induction n arbitrary: p)
  case 0
  then have "p < 9" "p = 0 \<or> p = 4" "on_border 3 3 p"
    using ring_transparent[of p] by auto
  then show ?case by (auto simp: on_border_def)
next
  case (Suc n)
  show ?case
  proof (cases "border_reach 3 3 (data ring_png) n p")
    case True
    then show ?thesis by (rule Suc.IH)
  next
    case False
    then obtain r where r: "adj4 3 r p" "border_reach 3 3 (data ring_png) n r"
      and p: "p < 9" "transparent (data ring_png) p"
      using Suc.prems by (auto simp: list_ex_iff)
    have "r = 0" using r(2) by (rule Suc.IH)
    moreover have "p = 0 \<or> p = 4" using p ring_transparent by simp
    ultimately show ?thesis using r(1) by (auto simp: adj4_def)
  qed
qed

lemma ring_centre_enclosed: "\<not> border_connected 3 3 (data ring_png) 4"
  unfolding border_connected_def using ring_reach by fastforce

lemma ring_corner_connected: "border_connected 3 3 (data ring_png) 0"
  unfolding border_connected_def
  by (rule exI[of _ 0]) (simp add: on_border_def transparent_def alphaAt_def ring_png_def)

lemma ring_wf: "wf_png ring_png"
  by (simp add: wf_png_def ring_png_def)

lemma phase1_post_wf: "wf_png img \<Longrightarrow> phase1_post img img1 \<Longrightarrow> wf_png img1"
  by (simp add: wf_png_def phase1_post_def)

lemma slab_length: "length (data slab_png) = 196"
  by code_simp

lemma slab_wf: "wf_png slab_png"
  using slab_length by (simp add: wf_png_def) (simp add: slab_png_def)

lemma slab_phase1: "phase1 slab_png = Some slab_png"
  by code_simp

lemma slab_centre_far: "\<not> near 7 7 (data slab_png) 2 24"
  by code_simp

lemma slab_corner_near: "near 7 7 (data slab_png) 2 0"
  by code_simp

section \<open>The claims about the alpha normalisation\<close>

text \<open>
  Claim C1. For every decoded image (positive dimensions, four bytes per pixel, a buffer of
  at most \<open>2^32\<close> bytes), phase 1 of \<open>makeInteriorOpaquePngBase64\<close> returns, and for every
  pixel \<open>p\<close> of alpha 0: if no 4-connected path of alpha-0 pixels leads from a pixel on the
  canvas border to \<open>p\<close>, the pixel becomes exactly \<open>(255, 255, 255, 255)\<close>; if such a path
  exists, the pixel keeps alpha 0 and its red, green and blue bytes.
\<close>

theorem phase1_hole_fill:
  assumes "wf_png img" and "p < width img * height img" and "alphaAt (data img) p = Some 0"
  shows "\<exists>out. phase1 img = Some out \<and>
           (if border_connected (width img) (height img) (data img) p
            then alphaAt (data out) p = Some 0 \<and> rgba (data out) p = rgba (data img) p
            else rgba (data out) p = (255, 255, 255, 255))"
proof -
  from phase1_ex[OF assms(1)] obtain out
    where out1: "phase1 img = Some out" and post: "phase1_post img out" by blast
  have out: "length (data out) = length (data img)"
    and v: "\<And>j. j < length (data img) \<Longrightarrow> data out ! j =
              (if transparent (data img) (j div 4) \<and>
                  \<not> border_connected (width img) (height img) (data img) (j div 4)
               then 255 else data img ! j)"
    using post by (simp_all add: phase1_post_def)
  have len: "length (data img) = 4 * (width img * height img)"
    using assms(1) by (simp add: wf_png_def)
  have tr: "transparent (data img) p" using assms(3) by (simp add: transparent_def)
  have j: "\<And>c. c < 4 \<Longrightarrow> p * 4 + c < length (data img) \<and> (p * 4 + c) div 4 = p"
    using assms(2) len by auto
  have vc: "\<And>c. c < 4 \<Longrightarrow> data out ! (p * 4 + c) =
      (if border_connected (width img) (height img) (data img) p then data img ! (p * 4 + c)
       else 255)"
    using v j tr by simp
  show ?thesis
  proof (cases "border_connected (width img) (height img) (data img) p")
    case True
    then have "\<forall>c < 4. data out ! (p * 4 + c) = data img ! (p * 4 + c)" using vc by simp
    then have "rgba (data out) p = rgba (data img) p" by (simp add: rgba_eq)
    moreover have "alphaAt (data out) p = Some 0"
      using assms(3) vc[of 3] True out by (simp add: alphaAt_def split: if_splits)
    ultimately show ?thesis using out1 True by simp
  next
    case False
    then have "rgba (data out) p = (255, 255, 255, 255)"
      using vc[of 0] vc[of 1] vc[of 2] vc[of 3] by (simp add: rgba_def)
    then show ?thesis using out1 False by simp
  qed
qed

text \<open>
  The 3 x 3 ring: the centre (alpha 0, enclosed by opaque pixels) is filled with opaque white,
  the transparent corner on the border keeps its four bytes.
\<close>

theorem phase1_hole_fill_witness:
  "\<exists>out. phase1 ring_png = Some out \<and> rgba (data out) 4 = (255, 255, 255, 255) \<and>
         alphaAt (data out) 0 = Some 0 \<and> rgba (data out) 0 = (9, 9, 9, 0)"
proof -
  have a4: "alphaAt (data ring_png) 4 = Some 0" and a0: "alphaAt (data ring_png) 0 = Some 0"
    by (simp_all add: alphaAt_def ring_png_def)
  have s: "width ring_png = 3" "height ring_png = 3" by (simp_all add: ring_png_def)
  have r0: "rgba (data ring_png) 0 = (9, 9, 9, 0)" by (simp add: rgba_def ring_png_def)
  from phase1_hole_fill[OF ring_wf _ a4] phase1_hole_fill[OF ring_wf _ a0]
  show ?thesis
    using ring_centre_enclosed ring_corner_connected by (auto simp: s r0)
qed

text \<open>
  Claim C2. For every decoded image, the normalisation returns, and for every pixel \<open>p\<close> whose
  alpha after phase 1 is \<open>a > 0\<close>: if \<open>p\<close> lies within 4-connected distance 2 (through
  pixels of alpha \<open>> 0\<close>) of an edge pixel, that is of a pixel of alpha \<open>> 0\<close> on the canvas
  border or with an 8-neighbour of alpha 0, its alpha after phase 2 is still \<open>a\<close>; if its
  distance exceeds 2, its alpha is exactly 255. The \<open>Int16Array\<close> of distances never
  wraps on such an image (\<open>level_bound\<close>).
\<close>

theorem phase2_opacity_clamp:
  assumes "wf_png img" and "phase1 img = Some img1" and "p < width img * height img"
    and "alphaAt (data img1) p = Some a" and "a \<noteq> 0"
  shows "\<exists>out. alpha_normalise img = Some out \<and>
           (if near (width img) (height img) (data img1) 2 p
            then alphaAt (data out) p = Some a
            else alphaAt (data out) p = Some 255)"
proof -
  have post1: "phase1_post img img1" using phase1_ex[OF assms(1)] assms(2) by auto
  have wf1: "wf_png img1" using assms(1) post1 by (rule phase1_post_wf)
  have wh: "width img1 = width img" "height img1 = height img"
    using post1 by (simp_all add: phase1_post_def)
  from phase2_ex[OF wf1] obtain out
    where out: "phase2 img1 = Some out" and post: "phase2_post img1 out" by blast
  have len: "length (data img1) = 4 * (width img * height img)"
    using wf1 by (simp add: wf_png_def wh)
  note j = pixel_index[OF len assms(3), of 3]
  have op: "opaque (data img1) p" using assms(4,5) by (simp add: opaque_def)
  have "data out ! (p * 4 + 3) =
      (if near (width img) (height img) (data img1) 2 p then data img1 ! (p * 4 + 3) else 255)"
    using post j op by (simp add: phase2_post_def wh)
  moreover have "length (data out) = length (data img1)" using post by (simp add: phase2_post_def)
  ultimately have "alphaAt (data out) p =
      (if near (width img) (height img) (data img1) 2 p then Some a else Some 255)"
    using assms(4) j(1) by (auto simp: alphaAt_def split: if_splits)
  moreover have "alpha_normalise img = Some out"
    using assms(2) out by (simp add: alpha_normalise_def)
  ultimately show ?thesis by simp
qed

text \<open>
  The 7 x 7 slab of alpha 100: the centre pixel, at distance 3 from the border, ends at alpha
  255; the corner keeps alpha 100.
\<close>

theorem phase2_opacity_clamp_witness:
  "\<exists>out. alpha_normalise slab_png = Some out \<and> alphaAt (data out) 24 = Some 255 \<and>
         alphaAt (data out) 0 = Some 100"
proof -
  have a: "alphaAt (data slab_png) 24 = Some 100" "alphaAt (data slab_png) 0 = Some 100"
    by code_simp+
  have s: "width slab_png = 7" "height slab_png = 7" by (simp_all add: slab_png_def)
  have n: "(100 :: 8 word) \<noteq> 0" by simp
  from phase2_opacity_clamp[OF slab_wf slab_phase1 _ a(1) n]
    phase2_opacity_clamp[OF slab_wf slab_phase1 _ a(2) n]
  show ?thesis
    using slab_centre_far slab_corner_near by (auto simp: s)
qed

text \<open>
  Claim C9. For every decoded image, the normalisation returns an image of the same width and
  height in which no pixel's alpha is below its input alpha, the pixels that were enclosed
  alpha-0 holes are opaque white, and the red, green and blue bytes of every other pixel are
  the input's.
\<close>

theorem alpha_normalise_frame:
  assumes "wf_png img"
  shows "\<exists>out. alpha_normalise img = Some out \<and>
           width out = width img \<and> height out = height img \<and>
           (\<forall>p < width img * height img.
              data img ! (p * 4 + 3) \<le> data out ! (p * 4 + 3) \<and>
              (if transparent (data img) p \<and>
                  \<not> border_connected (width img) (height img) (data img) p
               then rgba (data out) p = (255, 255, 255, 255)
               else \<forall>c < 3. data out ! (p * 4 + c) = data img ! (p * 4 + c)))"
proof -
  from phase1_ex[OF assms] obtain img1
    where p1: "phase1 img = Some img1" and post1: "phase1_post img img1" by blast
  have wf1: "wf_png img1" using assms post1 by (rule phase1_post_wf)
  from phase2_ex[OF wf1] obtain out
    where p2: "phase2 img1 = Some out" and post2: "phase2_post img1 out" by blast
  have an: "alpha_normalise img = Some out" using p1 p2 by (simp add: alpha_normalise_def)
  have wh: "width img1 = width img" "height img1 = height img"
    "length (data img1) = length (data img)"
    and v1: "\<And>j. j < length (data img) \<Longrightarrow> data img1 ! j =
              (if transparent (data img) (j div 4) \<and>
                  \<not> border_connected (width img) (height img) (data img) (j div 4)
               then 255 else data img ! j)"
    using post1 by (simp_all add: phase1_post_def)
  have wh2: "width out = width img" "height out = height img"
    and v2: "\<And>j. j < length (data img) \<Longrightarrow> data out ! j =
        (if j mod 4 = 3 \<and> opaque (data img1) (j div 4) \<and>
            \<not> near (width img) (height img) (data img1) 2 (j div 4)
         then 255 else data img1 ! j)"
    using post2 by (simp_all add: phase2_post_def wh)
  have len: "length (data img) = 4 * (width img * height img)"
    using assms by (simp add: wf_png_def)
  have top: "\<And>b :: 8 word. b \<le> 255"
  proof -
    fix b :: "8 word"
    have "unat b < 2 ^ LENGTH(8)" by (rule unsigned_less)
    then show "b \<le> 255" by (simp add: word_le_nat_alt)
  qed
  have "data img ! (p * 4 + 3) \<le> data out ! (p * 4 + 3) \<and>
        (if transparent (data img) p \<and>
            \<not> border_connected (width img) (height img) (data img) p
         then rgba (data out) p = (255, 255, 255, 255)
         else \<forall>c < 3. data out ! (p * 4 + c) = data img ! (p * 4 + c))"
    if p: "p < width img * height img" for p
  proof -
    have j: "\<And>c. c < 4 \<Longrightarrow> p * 4 + c < length (data img) \<and> (p * 4 + c) div 4 = p \<and>
        (p * 4 + c) mod 4 = c"
      using pixel_index[OF len p] by simp
    have rgb: "\<And>c. c < 3 \<Longrightarrow> data out ! (p * 4 + c) = data img1 ! (p * 4 + c)"
      using v2 j by simp
    have a2: "data out ! (p * 4 + 3) = 255 \<or> data out ! (p * 4 + 3) = data img1 ! (p * 4 + 3)"
      using v2[of "p * 4 + 3"] j[of 3] by (simp split: if_splits)
    have one: "\<And>c. c < 4 \<Longrightarrow> data img1 ! (p * 4 + c) =
        (if transparent (data img) p \<and>
            \<not> border_connected (width img) (height img) (data img) p
         then 255 else data img ! (p * 4 + c))"
      using v1 j by simp
    have "data img ! (p * 4 + 3) \<le> data out ! (p * 4 + 3)"
      using a2 one[of 3] top by (auto split: if_splits)
    moreover have "rgba (data out) p = (255, 255, 255, 255)"
      if "transparent (data img) p \<and> \<not> border_connected (width img) (height img) (data img) p"
      using that rgb[of 0] rgb[of 1] rgb[of 2] one[of 0] one[of 1] one[of 2] one[of 3] a2
      by (auto simp: rgba_def)
    moreover have "\<forall>c < 3. data out ! (p * 4 + c) = data img ! (p * 4 + c)"
      if "\<not> (transparent (data img) p \<and> \<not> border_connected (width img) (height img) (data img) p)"
      using that rgb one by auto
    ultimately show ?thesis by simp
  qed
  then show ?thesis using an wh2 by blast
qed

text \<open>On the 3 x 3 ring: same size, the hole is white, other bytes stay, alpha does not drop.\<close>

theorem alpha_normalise_frame_witness:
  "\<exists>out. alpha_normalise ring_png = Some out \<and> width out = 3 \<and> height out = 3 \<and>
         (200 :: 8 word) \<le> data out ! 7 \<and> rgba (data out) 4 = (255, 255, 255, 255) \<and>
         data out ! 0 = 9"
proof -
  have s: "width ring_png = 3" "height ring_png = 3" "data ring_png ! 7 = 200"
    "data ring_png ! 0 = 9"
    by (simp_all add: ring_png_def)
  have t: "transparent (data ring_png) 4" "\<not> transparent (data ring_png) 1"
    by (simp_all add: ring_transparent)
  from alpha_normalise_frame[OF ring_wf] obtain out
    where o: "alpha_normalise ring_png = Some out" "width out = 3" "height out = 3"
      and f: "\<And>p. p < 9 \<Longrightarrow> data ring_png ! (p * 4 + 3) \<le> data out ! (p * 4 + 3) \<and>
              (if transparent (data ring_png) p \<and> \<not> border_connected 3 3 (data ring_png) p
               then rgba (data out) p = (255, 255, 255, 255)
               else \<forall>c < 3. data out ! (p * 4 + c) = data ring_png ! (p * 4 + c))"
    by (auto simp: s)
  have "(200 :: 8 word) \<le> data out ! 7" using f[of 1] by (simp add: s)
  moreover have "rgba (data out) 4 = (255, 255, 255, 255)"
    using f[of 4] t ring_centre_enclosed by simp
  moreover have "data out ! 0 = 9"
    using f[of 0] ring_corner_connected by (auto simp: s)
  ultimately show ?thesis using o by blast
qed


lemma csv_POST_accepted:
  assumes "\<not> key_missing (OPENAI_API_KEY e)" "items_of itemsIn \<noteq> []"
    and "\<And>j. upload e j = Resp upRes" "ok upRes"
    and "create_batch e (json_id upRes) = Resp batchRes" "ok batchRes"
  shows "code (fst (csv_POST e (ItemsArray itemsIn))) = 200"
  using assms
  by (simp add: csv_POST_def Let_def json_reply_def split: prod.splits)

text \<open>
  Claim C5. Whenever the batch submission endpoint has its credential and at least one task
  survives, the tasks whose message is empty or whitespace-only are dropped first; the
  \<open>i\<close>-th survivor (counting from 0, in input order) gets the correlation id
  \<open>csv-<timestamp>-<i + 1 padded with zeros to four digits>\<close>; the uploaded JSONL has one
  line per survivor in that order, each with that id; and a 200 answer lists the survivors
  in that order with those ids and their trimmed message and keyword.
\<close>

theorem csv_ids_follow_input_order:
  assumes "\<not> key_missing (OPENAI_API_KEY e)"
    and "surv = filter (\<lambda>x. \<not> blank (raw_message x)) itemsIn" and "surv \<noteq> []"
    and "cid = (\<lambda>i. lit ''csv-'' @ String_of_nat (Date_now e) @ lit ''-''
                      @ padStart 4 0x30 (String_of_nat (i + 1)))"
  shows "\<exists>r calls.
      csv_POST e (ItemsArray itemsIn) =
        (r, UploadFile (join newline
              (map (\<lambda>i. stringify e (line_of e (cid i) (normalise_item (surv ! i))))
                 [0..<length surv]) @ newline) # calls) \<and>
      (\<forall>i < length surv. rl_custom_id (line_of e (cid i) (normalise_item (surv ! i))) = cid i) \<and>
      (code r = 200 \<longrightarrow>
         (\<exists>bid. body r = BatchCreated bid
            (map (\<lambda>i. \<lparr>oi_custom_id = cid i, oi_message = trim (raw_message (surv ! i)),
                         oi_keyword = trim (raw_keyword (surv ! i))\<rparr>) [0..<length surv])))"
proof -
  have c: "cid = custom_id_of (Date_now e)"
    by (rule ext) (simp add: assms(4) custom_id_of_def)
  have "\<exists>r calls. csv_POST e (ItemsArray itemsIn) =
        (r, UploadFile (join newline
              (map (stringify e) (map (\<lambda>i. line_of e (custom_id_of (Date_now e) i)
                 (normalise_item (surv ! i))) [0..<length surv])) @ newline) # calls) \<and>
      (code r = 200 \<longrightarrow>
         (\<exists>bid. body r = BatchCreated bid
            (map (\<lambda>i. \<lparr>oi_custom_id = custom_id_of (Date_now e) i,
                         oi_message = trim (raw_message (surv ! i)),
                         oi_keyword = trim (raw_keyword (surv ! i))\<rparr>) [0..<length surv])))"
    by (rule csv_POST_submits[OF assms(1,2,3) refl refl refl])
  moreover have "\<forall>i < length surv.
      rl_custom_id (line_of e (cid i) (normalise_item (surv ! i))) = cid i"
    by (simp add: line_of_def batch_line_def)
  ultimately show ?thesis unfolding c by (simp add: comp_def)
qed

lemma items0_survivors:
  "filter (\<lambda>x. \<not> blank (raw_message x)) items0 =
     [\<lparr>ri_message = Some (lit '' a ''), ri_keyword = None\<rparr>,
      \<lparr>ri_message = Some (lit ''b''), ri_keyword = Some (lit ''cat'')\<rparr>]"
proof -
  have "is_ws 32" "\<not> is_ws 97" "\<not> is_ws 98" by (simp_all add: is_ws_def)
  then show ?thesis by (auto simp: items0_def blank_def raw_message_def lit_def)
qed

lemma env0_key: "\<not> key_missing (OPENAI_API_KEY env0)"
  by (simp add: env0_def key_missing_def lit_def)

lemma csv_id_examples:
  "lit ''csv-'' @ String_of_nat (Date_now env0) @ lit ''-''
     @ padStart 4 0x30 (String_of_nat (Suc 0)) = lit ''csv-7-0001''"
  "lit ''csv-'' @ String_of_nat (Date_now env0) @ lit ''-''
     @ padStart 4 0x30 (String_of_nat (Suc (Suc 0))) = lit ''csv-7-0002''"
proof -
  have r: "replicate 3 (48 :: 16 word) = [48, 48, 48]" by (simp add: numeral_3_eq_3)
  have d: "String_of_nat (Date_now env0) = [55]"
    by (simp add: env0_def String_of_nat.simps[of 7])
  have n: "String_of_nat (Suc 0) = [49]" "String_of_nat (Suc (Suc 0)) = [50]"
    by (simp_all add: String_of_nat.simps[of "Suc 0"] String_of_nat.simps[of "Suc (Suc 0)"])
  show "lit ''csv-'' @ String_of_nat (Date_now env0) @ lit ''-''
     @ padStart 4 0x30 (String_of_nat (Suc 0)) = lit ''csv-7-0001''"
    by (simp add: d n padStart_def lit_def r)
  show "lit ''csv-'' @ String_of_nat (Date_now env0) @ lit ''-''
     @ padStart 4 0x30 (String_of_nat (Suc (Suc 0))) = lit ''csv-7-0002''"
    by (simp add: d n padStart_def lit_def r)
qed

lemma trim_examples:
  "trim (lit '' a '') = lit ''a''" "trim (lit ''b'') = lit ''b''" "trim (lit ''cat'') = lit ''cat''"
  "trim [] = []"
proof -
  have ws: "is_ws 32" "\<not> is_ws 97" "\<not> is_ws 98" "\<not> is_ws 99" "\<not> is_ws 116"
    by (simp_all add: is_ws_def)
  then show "trim (lit '' a '') = lit ''a''" "trim (lit ''b'') = lit ''b''"
    "trim (lit ''cat'') = lit ''cat''" "trim [] = []"
    by (simp_all add: trim_def lit_def)
qed

theorem csv_ids_follow_input_order_witness:
  "\<exists>bid. body (fst (csv_POST env0 (ItemsArray items0))) =
     BatchCreated bid
       [\<lparr>oi_custom_id = lit ''csv-7-0001'', oi_message = lit ''a'', oi_keyword = []\<rparr>,
        \<lparr>oi_custom_id = lit ''csv-7-0002'', oi_message = lit ''b'', oi_keyword = lit ''cat''\<rparr>]"
proof -
  define surv where "surv = [\<lparr>ri_message = Some (lit '' a ''), ri_keyword = None\<rparr>,
      \<lparr>ri_message = Some (lit ''b''), ri_keyword = Some (lit ''cat'')\<rparr>]"
  define cid where "cid = (\<lambda>i. lit ''csv-'' @ String_of_nat (Date_now env0) @ lit ''-''
                      @ padStart 4 0x30 (String_of_nat (i + 1)))"
  have sv: "surv = filter (\<lambda>x. \<not> blank (raw_message x)) items0"
    by (simp add: surv_def items0_survivors)
  have sne: "surv \<noteq> []" by (simp add: surv_def)
  have ne: "items_of items0 \<noteq> []" by (simp add: items_of_survivors items0_survivors)
  have c200: "code (fst (csv_POST env0 (ItemsArray items0))) = 200"
    by (rule csv_POST_accepted[OF env0_key ne, where upRes = ok_response
          and batchRes = "ok_response\<lparr>json_id := lit ''batch-1''\<rparr>"])
       (simp_all add: env0_def ok_response_def)
  have u: "[0..<length surv] = [0, 1]" by (simp add: surv_def upt_rec)
  have m: "map (\<lambda>i. \<lparr>oi_custom_id = cid i, oi_message = trim (raw_message (surv ! i)),
                       oi_keyword = trim (raw_keyword (surv ! i))\<rparr>) [0..<length surv] =
       [\<lparr>oi_custom_id = lit ''csv-7-0001'', oi_message = lit ''a'', oi_keyword = []\<rparr>,
        \<lparr>oi_custom_id = lit ''csv-7-0002'', oi_message = lit ''b'', oi_keyword = lit ''cat''\<rparr>]"
    unfolding u
    by (simp add: cid_def csv_id_examples) (simp add: surv_def raw_message_def raw_keyword_def
        trim_examples)
  from csv_ids_follow_input_order[OF env0_key sv sne cid_def]
  obtain r calls where "fst (csv_POST env0 (ItemsArray items0)) = r"
    and "code r = 200 \<longrightarrow> (\<exists>bid. body r = BatchCreated bid
       [\<lparr>oi_custom_id = lit ''csv-7-0001'', oi_message = lit ''a'', oi_keyword = []\<rparr>,
        \<lparr>oi_custom_id = lit ''csv-7-0002'', oi_message = lit ''b'', oi_keyword = lit ''cat''\<rparr>])"
    unfolding m by auto
  then show ?thesis using c200 by auto
qed


lemma find_first_of_both:
  "find P xs = Some l \<Longrightarrow> Q l \<Longrightarrow> (\<And>x. Q x \<Longrightarrow> P x) \<Longrightarrow> find Q xs = Some l"
  by (induction xs) (auto split: if_splits)

lemma matching_same_id: "matching parse customId l \<noteq> None \<Longrightarrow> same_id parse customId l"
  by (auto simp: matching_def same_id_def split: parsed_line.splits option.splits if_splits)

lemma env0_records:
  "records (lit ''junk'' @ newline @ lit ''c1'' @ [0x0D] @ newline @ lit ''c1 X'' @ newline)
     = [lit ''junk'', lit ''c1'', lit ''c1 X'']"
  "records (lit ''junk'' @ newline @ lit ''c1'' @ 13 # newline @ lit ''c1 X'' @ newline)
     = [lit ''junk'', lit ''c1'', lit ''c1 X'']"
  by (simp_all add: records_def lit_def newline_def)


lemma env0_matching:
  "matching (JSON_parse env0) (lit ''c1'') (lit ''junk'') = None"
  "matching (JSON_parse env0) (lit ''c1'') (lit ''c1'') = None"
  "matching (JSON_parse env0) (lit ''c1'') (lit ''c1 X'') = Some (lit ''X'')"
  "matching (JSON_parse env0) (lit ''zz'') (lit ''junk'') = None"
  "matching (JSON_parse env0) (lit ''zz'') (lit ''c1'') = None"
  "matching (JSON_parse env0) (lit ''zz'') (lit ''c1 X'') = None"
  by (simp_all add: matching_def env0_def lit_def)

lemma env0_status:
  "k < 2 \<Longrightarrow> query_status env0 k b = Resp ok_response"
  "\<not> k < 2 \<Longrightarrow> query_status env0 k b =
     Resp (ok_response\<lparr>json_status := lit ''completed'', json_output_file_id := Some (lit ''out-1'')\<rparr>)"
  "fetch_content env0 i = Resp (ok_response\<lparr>text_body :=
        lit ''junk'' @ newline @ lit ''c1'' @ [0x0D] @ newline @ lit ''c1 X'' @ newline\<rparr>)"
  by (simp_all add: env0_def)

lemma ok_response_fields:
  "ok ok_response" "json_status ok_response = lit ''in_progress''"
  "lit ''in_progress'' \<noteq> lit ''completed''" "lit ''out-1'' \<noteq> []"
  by (simp_all add: ok_response_def lit_def)

text \<open>
  Claim C4. The result fetch, once the status query has answered with success: a status
  other than \<open>completed\<close> gives the not-done indication with that status, and the status
  query is the only upstream request. With status \<open>completed\<close> and the output artifact
  fetched, the artifact is cut into its non-empty lines, and the result is the payload of the
  first record, in order, whose correlation id matches and whose payload is a non-empty
  string - which is the first record whose correlation id matches whenever that one carries
  such a payload. If no record has a matching correlation id and a non-empty payload, the
  fetch throws \<open>Batch completed but no matching image result was found.\<close> instead of
  returning not-done.
\<close>

theorem result_fetch_outcomes:
  assumes "query_status e k batchId = Resp stRes" and "ok stRes"
  shows "(json_status stRes \<noteq> lit ''completed'' \<longrightarrow>
           tryGetBatchResultImageBase64 e k batchId customId =
             (Inr (NotDone (json_status stRes)), [QueryStatus batchId])) \<and>
         (json_status stRes = lit ''completed'' \<and> json_output_file_id stRes = Some outId \<and>
          outId \<noteq> [] \<and> fetch_content e outId = Resp outRes \<and> ok outRes \<longrightarrow>
            snd (tryGetBatchResultImageBase64 e k batchId customId) =
              [QueryStatus batchId, FetchContent outId] \<and>
            (\<forall>l b. find (\<lambda>l. matching (JSON_parse e) customId l \<noteq> None)
                      (records (text_body outRes)) = Some l \<and>
                   matching (JSON_parse e) customId l = Some b \<longrightarrow>
               fst (tryGetBatchResultImageBase64 e k batchId customId) = Inr (Done b)) \<and>
            (\<forall>l b. find (same_id (JSON_parse e) customId) (records (text_body outRes)) = Some l \<and>
                   matching (JSON_parse e) customId l = Some b \<longrightarrow>
               fst (tryGetBatchResultImageBase64 e k batchId customId) = Inr (Done b)) \<and>
            ((\<forall>l \<in> set (records (text_body outRes)). matching (JSON_parse e) customId l = None) \<longrightarrow>
               fst (tryGetBatchResultImageBase64 e k batchId customId) =
                 Inl (lit ''Batch completed but no matching image result was found.'')))"
proof (intro conjI impI)
  assume "json_status stRes \<noteq> lit ''completed''"
  then show "tryGetBatchResultImageBase64 e k batchId customId =
             (Inr (NotDone (json_status stRes)), [QueryStatus batchId])"
    by (rule tryGet_cases(1)[OF assms])
next
  assume a: "json_status stRes = lit ''completed'' \<and> json_output_file_id stRes = Some outId \<and>
          outId \<noteq> [] \<and> fetch_content e outId = Resp outRes \<and> ok outRes"
  define P where "P = (\<lambda>l. matching (JSON_parse e) customId l \<noteq> None)"
  define rs where "rs = records (text_body outRes)"
  have eq: "tryGetBatchResultImageBase64 e k batchId customId =
           (case find P rs of
              Some l \<Rightarrow> Inr (Done (the (matching (JSON_parse e) customId l)))
            | None \<Rightarrow> Inl (lit ''Batch completed but no matching image result was found.''),
            [QueryStatus batchId, FetchContent outId])"
    unfolding P_def rs_def using a by (intro tryGet_cases(2)[OF assms]) simp_all
  show "snd (tryGetBatchResultImageBase64 e k batchId customId) =
              [QueryStatus batchId, FetchContent outId]"
    by (simp add: eq)
  have first: "fst (tryGetBatchResultImageBase64 e k batchId customId) = Inr (Done b)"
    if "find P rs = Some l" "matching (JSON_parse e) customId l = Some b" for l b
    using that by (simp add: eq)
  show "\<forall>l b. find (\<lambda>l. matching (JSON_parse e) customId l \<noteq> None)
                      (records (text_body outRes)) = Some l \<and>
                   matching (JSON_parse e) customId l = Some b \<longrightarrow>
               fst (tryGetBatchResultImageBase64 e k batchId customId) = Inr (Done b)"
    using first unfolding P_def rs_def by blast
  show "\<forall>l b. find (same_id (JSON_parse e) customId) (records (text_body outRes)) = Some l \<and>
                   matching (JSON_parse e) customId l = Some b \<longrightarrow>
               fst (tryGetBatchResultImageBase64 e k batchId customId) = Inr (Done b)"
  proof (intro allI impI, elim conjE)
    fix l b
    assume f: "find (same_id (JSON_parse e) customId) (records (text_body outRes)) = Some l"
      and m: "matching (JSON_parse e) customId l = Some b"
    have "find P rs = Some l"
      unfolding rs_def
    proof (rule find_first_of_both[OF f])
      show "P l" using m by (simp add: P_def)
      show "\<And>x. P x \<Longrightarrow> same_id (JSON_parse e) customId x"
        unfolding P_def by (rule matching_same_id)
    qed
    then show "fst (tryGetBatchResultImageBase64 e k batchId customId) = Inr (Done b)"
      using m by (rule first)
  qed
  show "fst (tryGetBatchResultImageBase64 e k batchId customId) =
                 Inl (lit ''Batch completed but no matching image result was found.'')"
    if "\<forall>l \<in> set (records (text_body outRes)). matching (JSON_parse e) customId l = None"
  proof -
    have "find P rs = None" using that by (simp add: find_None_iff P_def rs_def)
    then show ?thesis by (simp add: eq)
  qed
qed

theorem result_fetch_outcomes_witness:
  "tryGetBatchResultImageBase64 env0 0 (lit ''batch-1'') (lit ''c1'') =
     (Inr (NotDone (lit ''in_progress'')), [QueryStatus (lit ''batch-1'')]) \<and>
   tryGetBatchResultImageBase64 env0 2 (lit ''batch-1'') (lit ''c1'') =
     (Inr (Done (lit ''X'')), [QueryStatus (lit ''batch-1''), FetchContent (lit ''out-1'')]) \<and>
   tryGetBatchResultImageBase64 env0 2 (lit ''batch-1'') (lit ''zz'') =
     (Inl (lit ''Batch completed but no matching image result was found.''),
      [QueryStatus (lit ''batch-1''), FetchContent (lit ''out-1'')])"
proof -
  let ?b = "lit ''batch-1''"
  let ?done = "ok_response\<lparr>json_status := lit ''completed'',
                 json_output_file_id := Some (lit ''out-1'')\<rparr>"
  let ?out = "ok_response\<lparr>text_body :=
        lit ''junk'' @ newline @ lit ''c1'' @ [0x0D] @ newline @ lit ''c1 X'' @ newline\<rparr>"
  have q0: "query_status env0 0 ?b = Resp ok_response" by (simp add: env0_status)
  have q2: "query_status env0 2 ?b = Resp ?done" by (simp add: env0_status)
  have okd: "ok ?done" "ok ?out" by (simp_all add: ok_response_fields)
  have r: "records (text_body ?out) = [lit ''junk'', lit ''c1'', lit ''c1 X'']"
    by (simp add: env0_records)
  have 1: "tryGetBatchResultImageBase64 env0 0 ?b (lit ''c1'') =
     (Inr (NotDone (lit ''in_progress'')), [QueryStatus ?b])"
    using result_fetch_outcomes[OF q0 ok_response_fields(1), where customId = "lit ''c1''"]
    by (simp add: ok_response_fields)
  have 2: "tryGetBatchResultImageBase64 env0 2 ?b (lit ''c1'') =
     (Inr (Done (lit ''X'')), [QueryStatus ?b, FetchContent (lit ''out-1'')])"
    using result_fetch_outcomes[OF q2 okd(1), where outId = "lit ''out-1''" and outRes = ?out
        and customId = "lit ''c1''", unfolded r]
    by (simp add: prod_eq_iff env0_status ok_response_fields env0_matching)
  have 3: "tryGetBatchResultImageBase64 env0 2 ?b (lit ''zz'') =
     (Inl (lit ''Batch completed but no matching image result was found.''),
      [QueryStatus ?b, FetchContent (lit ''out-1'')])"
    using result_fetch_outcomes[OF q2 okd(1), where outId = "lit ''out-1''" and outRes = ?out
        and customId = "lit ''zz''", unfolded r]
    by (simp add: prod_eq_iff env0_status ok_response_fields env0_matching)
  show ?thesis using 1 2 3 by simp
qed


lemma env_pending_created:
  "createSingleImageBatch env_pending (generation_body env_pending (buildPrompt env_pending [] []))
     = Inr (lit ''batch-1'', lit ''gen-7-ab'')"
  by (simp add: createSingleImageBatch_def env_pending_def env0_def ok_response_def Let_def
      String_of_nat.simps[of 7] lit_def)

lemma env_pending_poll:
  "fst (tryGetBatchResultImageBase64 env_pending j b c) = Inr (NotDone (lit ''in_progress''))"
  by (simp add: tryGetBatchResultImageBase64_def env_pending_def env0_def ok_response_def lit_def)

lemma env0_poll:
  "fst (tryGetBatchResultImageBase64 env0 0 (lit ''batch-1'') (lit ''c1'')) = Inr (NotDone (lit ''in_progress''))"
  "fst (tryGetBatchResultImageBase64 env0 1 (lit ''batch-1'') (lit ''c1'')) = Inr (NotDone (lit ''in_progress''))"
  "fst (tryGetBatchResultImageBase64 env0 2 (lit ''batch-1'') (lit ''c1'')) = Inr (Done (lit ''X''))"
proof -
  have r: "scan_lines (JSON_parse env0) (lit ''c1'')
      (filter (\<lambda>l. l \<noteq> []) (split_lines []
         (lit ''junk'' @ newline @ lit ''c1'' @ 13 # newline @ lit ''c1 X'' @ newline)))
      = Some (lit ''X'')"
    using env0_records(2) env0_matching(1-3)
    by (simp add: scan_lines_find records_def)
  show "fst (tryGetBatchResultImageBase64 env0 0 (lit ''batch-1'') (lit ''c1'')) = Inr (NotDone (lit ''in_progress''))"
    by (simp add: tryGetBatchResultImageBase64_def env0_status ok_response_fields)
  show "fst (tryGetBatchResultImageBase64 env0 1 (lit ''batch-1'') (lit ''c1'')) = Inr (NotDone (lit ''in_progress''))"
    by (simp add: tryGetBatchResultImageBase64_def env0_status ok_response_fields)
  show "fst (tryGetBatchResultImageBase64 env0 2 (lit ''batch-1'') (lit ''c1'')) = Inr (Done (lit ''X''))"
    using r by (simp add: tryGetBatchResultImageBase64_def env0_status ok_response_fields)
qed

text \<open>
  Claim C6. The bounded poll loop, on a clock that only the sleeps advance, is a total
  function: for every sequence of poller answers it returns, and the time it took is at most
  the timeout plus one poll interval. If the first \<open>n\<close> polls are not ready and the next one
  finds the image while the clock is still inside the timeout, the loop returns that image
  at once, after exactly \<open>n\<close> sleeps of the poll interval. If every poll inside the timeout is
  not ready, the loop ends without an image once the elapsed time has reached the timeout,
  and the handler answers 202 with the job id and the correlation id. \<open>timer_delay\<close> is the
  interval itself for every interval between 1 and \<open>2^31 - 1\<close> milliseconds.
\<close>

theorem poll_loop_bounded:
  "snd (poll_loop T I poll s s 0) - s \<le> T + I \<and>
   (1 \<le> I \<and> I \<le> 2147483647 \<longrightarrow> timer_delay I = I) \<and>
   (\<forall>n b. (\<forall>j < n. \<exists>st. poll j = Inr (NotDone st)) \<and> poll n = Inr (Done b) \<and>
           n * timer_delay I < T \<longrightarrow>
      poll_loop T I poll s s 0 = (Inr (Some b), s + n * timer_delay I)) \<and>
   ((\<forall>j. j * timer_delay I < T \<longrightarrow> (\<exists>st. poll j = Inr (NotDone st))) \<longrightarrow>
      fst (poll_loop T I poll s s 0) = Inr None \<and> T \<le> snd (poll_loop T I poll s s 0) - s) \<and>
   (\<not> key_missing (OPENAI_API_KEY e) \<and> USE_BATCH e \<and>
    createSingleImageBatch e (generation_body e (buildPrompt e msg kw)) = Inr (bid, cid) \<and>
    (\<forall>j. j * timer_delay (BATCH_POLL_INTERVAL_MS e) < BATCH_POLL_TIMEOUT_MS e \<longrightarrow>
         (\<exists>st. fst (tryGetBatchResultImageBase64 e j bid cid) = Inr (NotDone st))) \<longrightarrow>
      generate_GET e msg kw = Some \<lparr>code = 202, body = PendingBody bid cid\<rparr>)"
proof (intro conjI allI impI)
  show "snd (poll_loop T I poll s s 0) - s \<le> T + I" by (rule poll_loop_budget)
next
  assume "1 \<le> I \<and> I \<le> 2147483647"
  then show "timer_delay I = I" by (simp add: timer_delay_def)
next
  fix n b
  assume a: "(\<forall>j < n. \<exists>st. poll j = Inr (NotDone st)) \<and> poll n = Inr (Done b) \<and>
           n * timer_delay I < T"
  have "poll_loop T I poll s s 0 = (Inr (Some b), s + n * timer_delay I)"
  proof (rule poll_loop_found)
    show "s \<le> s" by simp
    show "\<forall>j<n. \<exists>st. poll (0 + j) = Inr (NotDone st)" using a by simp
    show "poll (0 + n) = Inr (Done b)" using a by simp
    show "s + n * timer_delay I - s < T" using a by simp
  qed
  then show "poll_loop T I poll s s 0 = (Inr (Some b), s + n * timer_delay I)" .
next
  assume a: "\<forall>j. j * timer_delay I < T \<longrightarrow> (\<exists>st. poll j = Inr (NotDone st))"
  have p: "fst (poll_loop T I poll s s 0) = Inr None \<and> T \<le> snd (poll_loop T I poll s s 0) - s"
  proof (rule poll_loop_pending)
    show "s \<le> s" by simp
    show "\<forall>j. s + j * timer_delay I - s < T \<longrightarrow> (\<exists>st. poll (0 + j) = Inr (NotDone st))"
      using a by simp
  qed
  show "fst (poll_loop T I poll s s 0) = Inr None" using p by simp
  show "T \<le> snd (poll_loop T I poll s s 0) - s" using p by simp
next
  assume a: "\<not> key_missing (OPENAI_API_KEY e) \<and> USE_BATCH e \<and>
    createSingleImageBatch e (generation_body e (buildPrompt e msg kw)) = Inr (bid, cid) \<and>
    (\<forall>j. j * timer_delay (BATCH_POLL_INTERVAL_MS e) < BATCH_POLL_TIMEOUT_MS e \<longrightarrow>
         (\<exists>st. fst (tryGetBatchResultImageBase64 e j bid cid) = Inr (NotDone st)))"
  let ?s = "Date_now e"
  have "fst (poll_loop (BATCH_POLL_TIMEOUT_MS e) (BATCH_POLL_INTERVAL_MS e)
               (\<lambda>k. fst (tryGetBatchResultImageBase64 e k bid cid)) ?s ?s 0) = Inr None \<and>
        BATCH_POLL_TIMEOUT_MS e \<le> snd (poll_loop (BATCH_POLL_TIMEOUT_MS e) (BATCH_POLL_INTERVAL_MS e)
               (\<lambda>k. fst (tryGetBatchResultImageBase64 e k bid cid)) ?s ?s 0) - ?s"
  proof (rule poll_loop_pending)
    show "?s \<le> ?s" by simp
    show "\<forall>j. ?s + j * timer_delay (BATCH_POLL_INTERVAL_MS e) - ?s < BATCH_POLL_TIMEOUT_MS e \<longrightarrow>
        (\<exists>st. fst (tryGetBatchResultImageBase64 e (0 + j) bid cid) = Inr (NotDone st))"
      using a by simp
  qed
  then have "generate_GET e msg kw = Some (json_reply (PendingBody bid cid) 202)"
    using a by (intro generate_GET_pending) simp_all
  then show "generate_GET e msg kw = Some \<lparr>code = 202, body = PendingBody bid cid\<rparr>"
    by (simp add: json_reply_def)
qed

theorem poll_loop_bounded_witness:
  "poll_loop 25000 2000 (\<lambda>k. fst (tryGetBatchResultImageBase64 env0 k (lit ''batch-1'') (lit ''c1'')))
      7 7 0 = (Inr (Some (lit ''X'')), 4007) \<and>
   generate_GET env_pending [] [] =
     Some \<lparr>code = 202, body = PendingBody (lit ''batch-1'') (lit ''gen-7-ab'')\<rparr>"
proof -
  let ?poll = "\<lambda>k. fst (tryGetBatchResultImageBase64 env0 k (lit ''batch-1'') (lit ''c1''))"
  have td: "timer_delay 2000 = 2000" by (simp add: timer_delay_def)
  have nd: "\<forall>j < 2. \<exists>st. ?poll j = Inr (NotDone st)"
  proof (intro allI impI)
    fix j :: nat assume "j < 2"
    then have "j = 0 \<or> j = 1" by auto
    then show "\<exists>st. ?poll j = Inr (NotDone st)" using env0_poll(1,2) by auto
  qed
  have 1: "poll_loop 25000 2000 ?poll 7 7 0 = (Inr (Some (lit ''X'')), 4007)"
    using poll_loop_bounded[of 25000 2000 ?poll 7, THEN conjunct2, THEN conjunct2, THEN conjunct1,
        rule_format, of 2 "lit ''X''"] nd env0_poll(3)
    by (simp add: td)
  have k: "\<not> key_missing (OPENAI_API_KEY env_pending)"
    by (simp add: env_pending_def env0_def key_missing_def lit_def)
  have u: "USE_BATCH env_pending" by (simp add: env_pending_def env0_def)
  have 2: "generate_GET env_pending [] [] =
     Some \<lparr>code = 202, body = PendingBody (lit ''batch-1'') (lit ''gen-7-ab'')\<rparr>"
    using poll_loop_bounded[of 0 0 "\<lambda>k. Inl []" 0 env_pending "[]" "[]" "lit ''batch-1''"
        "lit ''gen-7-ab''", THEN conjunct2, THEN conjunct2, THEN conjunct2, THEN conjunct2]
      k u env_pending_created env_pending_poll
    by simp
  show ?thesis using 1 2 by simp
qed


lemma ring_normalised:
  "alpha_normalise ring_png = Some \<lparr>width = 3, height = 3, data = ring_filled\<rparr>"
  by code_simp

lemma env0_codec:
  "PNG_read env0 b = Some img \<Longrightarrow> wf_png img"
  "PNG_read env0 b = (if b = [1] then Some ring_png else None)"
  "from_base64 env0 s = map ucast s" "to_base64 env0 bs = map ucast bs" "PNG_write env0 img = data img"
  using ring_wf by (auto simp: env0_def split: if_splits)

lemma env_done_codec:
  "PNG_read env_done = PNG_read env0" "from_base64 env_done = from_base64 env0"
  "to_base64 env_done = to_base64 env0" "PNG_write env_done = PNG_write env0"
  by (simp_all add: env_done_def)

lemma env_done_poll:
  "fst (tryGetBatchResultImageBase64 env_done 0 (lit ''batch-1'') (lit ''c1'')) = Inr (Done (lit ''X''))"
proof -
  have r: "scan_lines (JSON_parse env0) (lit ''c1'')
      (filter (\<lambda>l. l \<noteq> []) (split_lines []
         (lit ''junk'' @ newline @ lit ''c1'' @ 13 # newline @ lit ''c1 X'' @ newline)))
      = Some (lit ''X'')"
    using env0_records(2) env0_matching(1-3)
    by (simp add: scan_lines_find records_def)
  show ?thesis
    using r by (simp add: tryGetBatchResultImageBase64_def env_done_def env0_status ok_response_fields)
qed

text \<open>
  Claim C7. Given a codec whose decoded images are well-formed, the post-processing tail of
  both \<open>GET\<close> handlers always returns, and what it returns is a 200 response with an image. If
  the alpha normalisation throws because the buffer does not decode, the image sent is the
  decoded raw base64 buffer as it came; if the normalisation returned and its output does
  not decode in the resize stage, the image sent is that pre-resize buffer. The polling
  endpoint answers with this tail whenever the result fetch found an image.
\<close>

theorem post_processing_never_fails:
  assumes "\<forall>b img. PNG_read e b = Some img \<longrightarrow> wf_png img"
  shows "(\<exists>buf. respond_with_image e b64 = Some \<lparr>code = 200, body = ImageBody buf\<rparr>) \<and>
     (PNG_read e (from_base64 e b64) = None \<longrightarrow>
        makeInteriorOpaquePngBase64 e b64 = Some Thrown \<and>
        respond_with_image e b64 = Some \<lparr>code = 200, body = ImageBody (from_base64 e b64)\<rparr>) \<and>
     (\<forall>fixed. makeInteriorOpaquePngBase64 e b64 = Some (Returned fixed) \<and>
        PNG_read e (from_base64 e fixed) = None \<longrightarrow>
        respond_with_image e b64 = Some \<lparr>code = 200, body = ImageBody (from_base64 e fixed)\<rparr>) \<and>
     (\<not> key_missing (OPENAI_API_KEY e) \<and> batchId \<noteq> [] \<and> customId \<noteq> [] \<and>
      fst (tryGetBatchResultImageBase64 e 0 batchId customId) = Inr (Done b64) \<longrightarrow>
        (\<exists>buf. batch_GET e (Some batchId) (Some customId) = Some \<lparr>code = 200, body = ImageBody buf\<rparr>))"
proof -
  have c: "\<And>b img. PNG_read e b = Some img \<Longrightarrow> wf_png img" using assms by blast
  note r = respond_with_image_cases[where e = e and ?b64.0 = b64, OF c]
  have t: "PNG_read e (from_base64 e b64) = None \<Longrightarrow> makeInteriorOpaquePngBase64 e b64 = Some Thrown"
    by (simp add: makeInteriorOpaquePngBase64_def)
  have b: "\<exists>buf. batch_GET e (Some batchId) (Some customId) = Some \<lparr>code = 200, body = ImageBody buf\<rparr>"
    if "\<not> key_missing (OPENAI_API_KEY e)" "batchId \<noteq> []" "customId \<noteq> []"
      "fst (tryGetBatchResultImageBase64 e 0 batchId customId) = Inr (Done b64)"
  proof -
    have "batch_GET e (Some batchId) (Some customId) = respond_with_image e b64"
      using that by (simp add: batch_GET_def)
    then show ?thesis using r by simp
  qed
  show ?thesis
  proof (intro conjI impI)
    show "\<exists>buf. respond_with_image e b64 = Some \<lparr>code = 200, body = ImageBody buf\<rparr>"
      by (rule r[THEN conjunct1])
    show "\<forall>fixed. makeInteriorOpaquePngBase64 e b64 = Some (Returned fixed) \<and>
        PNG_read e (from_base64 e fixed) = None \<longrightarrow>
        respond_with_image e b64 = Some \<lparr>code = 200, body = ImageBody (from_base64 e fixed)\<rparr>"
      by (rule r[THEN conjunct2, THEN conjunct2])
  next
    assume n: "PNG_read e (from_base64 e b64) = None"
    show "makeInteriorOpaquePngBase64 e b64 = Some Thrown" using n by (rule t)
    show "respond_with_image e b64 = Some \<lparr>code = 200, body = ImageBody (from_base64 e b64)\<rparr>"
      using r n by simp
  next
    assume "\<not> key_missing (OPENAI_API_KEY e) \<and> batchId \<noteq> [] \<and> customId \<noteq> [] \<and>
      fst (tryGetBatchResultImageBase64 e 0 batchId customId) = Inr (Done b64)"
    then show "\<exists>buf. batch_GET e (Some batchId) (Some customId) =
        Some \<lparr>code = 200, body = ImageBody buf\<rparr>"
      using b by simp
  qed
qed

theorem post_processing_never_fails_witness:
  "respond_with_image env0 (lit ''X'') = Some \<lparr>code = 200, body = ImageBody [88]\<rparr> \<and>
   respond_with_image env0 [1] = Some \<lparr>code = 200, body = ImageBody ring_filled\<rparr> \<and>
   batch_GET env_done (Some (lit ''batch-1'')) (Some (lit ''c1'')) =
     Some \<lparr>code = 200, body = ImageBody [88]\<rparr>"
proof -
  have c0: "\<forall>b img. PNG_read env0 b = Some img \<longrightarrow> wf_png img" using env0_codec(1) by blast
  have cd: "\<forall>b img. PNG_read env_done b = Some img \<longrightarrow> wf_png img"
    using env0_codec(1) by (simp add: env_done_codec)
  have x: "from_base64 env0 (lit ''X'') = [88]" by (simp add: env0_codec lit_def)
  have nx: "PNG_read env0 (from_base64 env0 (lit ''X'')) = None"
    unfolding x by (simp add: env0_codec)
  have 1: "respond_with_image env0 (lit ''X'') = Some \<lparr>code = 200, body = ImageBody [88]\<rparr>"
    using post_processing_never_fails[OF c0, where ?b64.0 = "lit ''X''"] nx x by simp
  have one: "from_base64 env0 [1] = [1]" by (simp add: env0_codec)
  have m: "makeInteriorOpaquePngBase64 env0 [1] = Some (Returned (map ucast ring_filled))"
    by (simp add: makeInteriorOpaquePngBase64_def one env0_codec ring_normalised)
  have rt: "from_base64 env0 (map ucast ring_filled) = ring_filled"
    by (simp add: env0_codec ring_filled_def)
  have nf: "PNG_read env0 (from_base64 env0 (map ucast ring_filled)) = None"
    unfolding rt by (simp add: env0_codec ring_filled_def)
  have 2: "respond_with_image env0 [1] = Some \<lparr>code = 200, body = ImageBody ring_filled\<rparr>"
    using post_processing_never_fails[OF c0, where ?b64.0 = "[1]"] m nf rt by simp
  have k: "\<not> key_missing (OPENAI_API_KEY env_done)"
    by (simp add: env_done_def env0_def key_missing_def lit_def)
  have ne: "lit ''batch-1'' \<noteq> []" "lit ''c1'' \<noteq> []" by (simp_all add: lit_def)
  have xd: "from_base64 env_done (lit ''X'') = [88]" by (simp add: env_done_codec x)
  have nxd: "PNG_read env_done (from_base64 env_done (lit ''X'')) = None"
    unfolding xd by (simp add: env_done_codec env0_codec)
  have rd: "respond_with_image env_done (lit ''X'') = Some \<lparr>code = 200, body = ImageBody [88]\<rparr>"
    using post_processing_never_fails[OF cd, where ?b64.0 = "lit ''X''"] nxd xd by simp
  have "batch_GET env_done (Some (lit ''batch-1'')) (Some (lit ''c1'')) =
      respond_with_image env_done (lit ''X'')"
    using k ne env_done_poll by (simp add: batch_GET_def)
  then have 3: "batch_GET env_done (Some (lit ''batch-1'')) (Some (lit ''c1'')) =
     Some \<lparr>code = 200, body = ImageBody [88]\<rparr>"
    using rd by simp
  show ?thesis using 1 2 3 by simp
qed


lemma pow2_powi: "pow2 k = 2 powi k"
  by (simp add: pow2_def power_int_def field_simps)




lemma pow2_mono: "i \<le> j \<Longrightarrow> pow2 i \<le> pow2 j"
  by (simp add: pow2_powi power_int_increasing)

lemma pow2_less_imp: "pow2 i < pow2 j \<Longrightarrow> i < j"
  using pow2_mono[of j i] by (cases "i < j") auto



lemma pow2_nat: "pow2 (int n) = 2 ^ n"
  by (simp add: pow2_def)



























section \<open>The claim about the resize\<close>

text \<open>
  Claim C3, as stated, fails for a target with a zero side: no canvas is allocated and the
  function throws instead of returning an image.
\<close>

theorem resize_contain_counterexample:
  "resizeContainBilinear env0 white4 0 2 = Thrown"
  by (simp add: resizeContainBilinear_def)




section \<open>The claims about failures\<close>

text \<open>
  Claim C10, as stated, fails in two places. Where the credential is missing the handler
  answers 500 before it looks at the payload. Where the payload file holds the JSON value
  \<open>null\<close>, which has no \<open>items\<close> array, the access \<open>payload.items\<close> throws and the \<open>catch\<close>
  answers 500 with the exception's message.
\<close>

theorem csv_no_items_counterexample:
  "csv_POST env_no_key (ItemsArray []) =
     (\<lparr>code = 500, body = ErrorBody (lit ''OPENAI_API_KEY is not set on the server.'')\<rparr>, []) \<and>
   csv_POST env0 (Throws (lit ''Cannot read properties of null (reading 'items')'')) =
     (\<lparr>code = 500,
       body = ErrorBody (lit ''Cannot read properties of null (reading 'items')'')\<rparr>, [])"
  by (simp add: csv_POST_def env_no_key_def env0_def key_missing_def json_reply_def
      caught_message_def lit_def)

text \<open>
  Claim C10, amended. If the payload given to the batch submission endpoint has no item with
  a non-blank message - every message of the \<open>items\<close> array is empty or whitespace-only, the
  array is empty, \<open>items\<close> is absent or not an array, the form field is not a file, or reading
  the payload throws - the endpoint performs no upload and no job creation. Its answer is
  500 when the credential is not configured; otherwise 400
  (\<open>Missing payload (multipart form field 'payload').\<close>) when the field is not a file, 500
  with the exception's message when reading the payload throws, and 400
  (\<open>No valid items in payload.\<close>) in every other such case.
\<close>

theorem csv_no_items_no_batch:
  assumes "\<forall>xs. pl = ItemsArray xs \<longrightarrow> (\<forall>x \<in> set xs. blank (raw_message x))"
  shows "snd (csv_POST e pl) = [] \<and>
     fst (csv_POST e pl) =
       (if key_missing (OPENAI_API_KEY e)
        then \<lparr>code = 500, body = ErrorBody (lit ''OPENAI_API_KEY is not set on the server.'')\<rparr>
        else case pl of
          NotAFile \<Rightarrow>
            \<lparr>code = 400, body = ErrorBody (lit ''Missing payload (multipart form field 'payload').'')\<rparr>
        | Throws m \<Rightarrow>
            \<lparr>code = 500, body = ErrorBody (if m = [] then lit ''Unknown error'' else m)\<rparr>
        | ItemsNotArray \<Rightarrow> \<lparr>code = 400, body = ErrorBody (lit ''No valid items in payload.'')\<rparr>
        | ItemsArray xs \<Rightarrow> \<lparr>code = 400, body = ErrorBody (lit ''No valid items in payload.'')\<rparr>)"
proof (cases pl)
  case NotAFile
  then show ?thesis by (simp add: csv_POST_def json_reply_def)
next
  case (Throws m)
  then show ?thesis by (simp add: csv_POST_def json_reply_def caught_message_def)
next
  case ItemsNotArray
  then show ?thesis using csv_POST_nothing_valid[of pl e] by (simp add: json_reply_def)
next
  case (ItemsArray xs)
  then have "\<forall>x \<in> set xs. blank (raw_message x)" using assms by simp
  then show ?thesis using ItemsArray csv_POST_nothing_valid[of pl e] by (simp add: json_reply_def)
qed

theorem csv_no_items_no_batch_witness:
  "csv_POST env0 (ItemsArray [\<lparr>ri_message = Some (lit ''  ''), ri_keyword = None\<rparr>]) =
     (\<lparr>code = 400, body = ErrorBody (lit ''No valid items in payload.'')\<rparr>, []) \<and>
   csv_POST env0 ItemsNotArray =
     (\<lparr>code = 400, body = ErrorBody (lit ''No valid items in payload.'')\<rparr>, []) \<and>
   csv_POST env0 (Throws (lit ''Unexpected token'')) =
     (\<lparr>code = 500, body = ErrorBody (lit ''Unexpected token'')\<rparr>, []) \<and>
   csv_POST env0 NotAFile =
     (\<lparr>code = 400, body = ErrorBody (lit ''Missing payload (multipart form field 'payload').'')\<rparr>, [])"
proof -
  have ws: "is_ws 32" by (simp add: is_ws_def)
  have b: "\<forall>xs. ItemsArray [\<lparr>ri_message = Some (lit ''  ''), ri_keyword = None\<rparr>] = ItemsArray xs \<longrightarrow>
      (\<forall>x \<in> set xs. blank (raw_message x))"
    using ws by (simp add: blank_def raw_message_def lit_def)
  have n: "lit ''Unexpected token'' \<noteq> []" by (simp add: lit_def)
  have 1: "csv_POST env0 (ItemsArray [\<lparr>ri_message = Some (lit ''  ''), ri_keyword = None\<rparr>]) =
     (\<lparr>code = 400, body = ErrorBody (lit ''No valid items in payload.'')\<rparr>, [])"
    using csv_no_items_no_batch[OF b, of env0] env0_key by (simp add: prod_eq_iff)
  have 2: "csv_POST env0 ItemsNotArray =
     (\<lparr>code = 400, body = ErrorBody (lit ''No valid items in payload.'')\<rparr>, [])"
    using csv_no_items_no_batch[of ItemsNotArray env0] env0_key by (simp add: prod_eq_iff)
  have 3: "csv_POST env0 (Throws (lit ''Unexpected token'')) =
     (\<lparr>code = 500, body = ErrorBody (lit ''Unexpected token'')\<rparr>, [])"
    using csv_no_items_no_batch[of "Throws (lit ''Unexpected token'')" env0] env0_key n
    by (simp add: prod_eq_iff)
  have 4: "csv_POST env0 NotAFile =
     (\<lparr>code = 400, body = ErrorBody (lit ''Missing payload (multipart form field 'payload').'')\<rparr>, [])"
    using csv_no_items_no_batch[of NotAFile env0] env0_key by (simp add: prod_eq_iff)
  show ?thesis using 1 2 3 4 by simp
qed

lemma poll_loop_failed:
  "started \<le> now \<Longrightarrow> (\<forall>j < n. \<exists>st. poll (k + j) = Inr (NotDone st)) \<Longrightarrow>
   poll (k + n) = Inl err \<Longrightarrow> now + n * timer_delay I - started < T \<Longrightarrow>
   poll_loop T I poll started now k = (Inl err, now + n * timer_delay I)"
proof (induction n arbitrary: now k)
  case 0
  then show ?case by (subst poll_loop.simps) simp
next
  case (Suc n)
  from Suc.prems(2) obtain st where st: "poll k = Inr (NotDone st)" by force
  have lt: "now - started < T" using Suc.prems(1,4) by simp
  have "poll_loop T I poll started (now + timer_delay I) (k + 1)
        = (Inl err, now + timer_delay I + n * timer_delay I)"
  proof (rule Suc.IH)
    show "started \<le> now + timer_delay I" using Suc.prems(1) by simp
    show "\<forall>j<n. \<exists>st. poll (k + 1 + j) = Inr (NotDone st)"
      using Suc.prems(2) by (metis Suc_less_eq add_Suc_right add_Suc_shift Suc_eq_plus1)
    show "poll (k + 1 + n) = Inl err" using Suc.prems(3) by simp
    show "now + timer_delay I + n * timer_delay I - started < T" using Suc.prems(4) by (simp add: add.assoc)
  qed
  then show ?case using lt st by (subst poll_loop.simps) (simp add: add.assoc)
qed

lemma generate_GET_poll_failed:
  assumes "\<not> key_missing (OPENAI_API_KEY e)" "USE_BATCH e"
    and "createSingleImageBatch e (generation_body e (buildPrompt e msg kw)) = Inr (bid, cid)"
    and "\<forall>j < n. \<exists>st. fst (tryGetBatchResultImageBase64 e j bid cid) = Inr (NotDone st)"
    and "fst (tryGetBatchResultImageBase64 e n bid cid) = Inl err"
    and "n * timer_delay (BATCH_POLL_INTERVAL_MS e) < BATCH_POLL_TIMEOUT_MS e"
  shows "generate_GET e msg kw =
     Some (json_reply (ErrorBody (lit ''Unexpected server error in /api/generate'')) 500)"
proof -
  let ?poll = "\<lambda>k. fst (tryGetBatchResultImageBase64 e k bid cid)"
  have "poll_loop (BATCH_POLL_TIMEOUT_MS e) (BATCH_POLL_INTERVAL_MS e) ?poll (Date_now e) (Date_now e) 0
      = (Inl err, Date_now e + n * timer_delay (BATCH_POLL_INTERVAL_MS e))"
  proof (rule poll_loop_failed)
    show "Date_now e \<le> Date_now e" by simp
    show "\<forall>j<n. \<exists>st. ?poll (0 + j) = Inr (NotDone st)" using assms(4) by simp
    show "?poll (0 + n) = Inl err" using assms(5) by simp
    show "Date_now e + n * timer_delay (BATCH_POLL_INTERVAL_MS e) - Date_now e < BATCH_POLL_TIMEOUT_MS e"
      using assms(6) by simp
  qed
  then show ?thesis using assms(1-3) by (simp add: generate_GET_def Let_def)
qed

lemma createSingleImageBatch_failed:
  "(\<forall>j. upload e j = Resp upRes) \<Longrightarrow> \<not> ok upRes \<Longrightarrow>
     createSingleImageBatch e b = Inl (lit ''OpenAI file upload failed ('' @ String_of_nat (status upRes)
             @ lit ''): '' @ take 200 (text_body upRes))"
  "(\<forall>j. upload e j = Resp upRes) \<Longrightarrow> ok upRes \<Longrightarrow>
   create_batch e (json_id upRes) = Resp batchRes \<Longrightarrow> \<not> ok batchRes \<Longrightarrow>
     createSingleImageBatch e b = Inl (lit ''OpenAI batch create failed ('' @ String_of_nat (status batchRes)
             @ lit ''): '' @ take 200 (text_body batchRes))"
  by (simp_all add: createSingleImageBatch_def Let_def upstream_error_def slice0_def lit_def)


lemma upstream_error_diagnostic: "upstream_error step r = diagnostic step r"
  by (simp add: upstream_error_def diagnostic_def slice0_def)

lemma tryGet_failed:
  "query_status e k batchId = Resp stRes \<Longrightarrow> \<not> ok stRes \<Longrightarrow>
     fst (tryGetBatchResultImageBase64 e k batchId customId) =
       Inl (diagnostic ''OpenAI batch status failed'' stRes)"
  "query_status e k batchId = Resp stRes \<Longrightarrow> ok stRes \<Longrightarrow>
   json_status stRes = lit ''completed'' \<Longrightarrow> json_output_file_id stRes = Some outId \<Longrightarrow>
   outId \<noteq> [] \<Longrightarrow> fetch_content e outId = Resp outRes \<Longrightarrow> \<not> ok outRes \<Longrightarrow>
     fst (tryGetBatchResultImageBase64 e k batchId customId) =
       Inl (diagnostic ''OpenAI batch output fetch failed'' outRes)"
  by (simp_all add: tryGetBatchResultImageBase64_def upstream_error_diagnostic)

lemma createSingleImageBatch_diagnostic:
  "(\<forall>j. upload e j = Resp upRes) \<Longrightarrow> \<not> ok upRes \<Longrightarrow>
     createSingleImageBatch e b = Inl (diagnostic ''OpenAI file upload failed'' upRes)"
  "(\<forall>j. upload e j = Resp upRes) \<Longrightarrow> ok upRes \<Longrightarrow>
   create_batch e (json_id upRes) = Resp batchRes \<Longrightarrow> \<not> ok batchRes \<Longrightarrow>
     createSingleImageBatch e b = Inl (diagnostic ''OpenAI batch create failed'' batchRes)"
  by (simp_all add: createSingleImageBatch_def Let_def upstream_error_diagnostic)

lemma csv_POST_diagnostic:
  "\<not> key_missing (OPENAI_API_KEY e) \<Longrightarrow> items_of itemsIn \<noteq> [] \<Longrightarrow>
   (\<forall>j. upload e j = Resp upRes) \<Longrightarrow> \<not> ok upRes \<Longrightarrow>
     fst (csv_POST e (ItemsArray itemsIn)) =
       \<lparr>code = 502, body = ErrorBody (diagnostic ''OpenAI file upload failed'' upRes)\<rparr>"
  "\<not> key_missing (OPENAI_API_KEY e) \<Longrightarrow> items_of itemsIn \<noteq> [] \<Longrightarrow>
   (\<forall>j. upload e j = Resp upRes) \<Longrightarrow> ok upRes \<Longrightarrow>
   create_batch e (json_id upRes) = Resp batchRes \<Longrightarrow> \<not> ok batchRes \<Longrightarrow>
     fst (csv_POST e (ItemsArray itemsIn)) =
       \<lparr>code = 502, body = ErrorBody (diagnostic ''OpenAI batch create failed'' batchRes)\<rparr>"
proof -
  show "\<not> key_missing (OPENAI_API_KEY e) \<Longrightarrow> items_of itemsIn \<noteq> [] \<Longrightarrow>
   (\<forall>j. upload e j = Resp upRes) \<Longrightarrow> \<not> ok upRes \<Longrightarrow>
     fst (csv_POST e (ItemsArray itemsIn)) =
       \<lparr>code = 502, body = ErrorBody (diagnostic ''OpenAI file upload failed'' upRes)\<rparr>"
    using csv_POST_upload_failed[of e itemsIn upRes]
    by (simp add: json_reply_def diagnostic_def lit_def)
  show "\<not> key_missing (OPENAI_API_KEY e) \<Longrightarrow> items_of itemsIn \<noteq> [] \<Longrightarrow>
   (\<forall>j. upload e j = Resp upRes) \<Longrightarrow> ok upRes \<Longrightarrow>
   create_batch e (json_id upRes) = Resp batchRes \<Longrightarrow> \<not> ok batchRes \<Longrightarrow>
     fst (csv_POST e (ItemsArray itemsIn)) =
       \<lparr>code = 502, body = ErrorBody (diagnostic ''OpenAI batch create failed'' batchRes)\<rparr>"
    using csv_POST_create_failed[of e itemsIn upRes batchRes]
    by (simp add: json_reply_def diagnostic_def lit_def)
qed

lemma batch_GET_failed:
  "\<not> key_missing (OPENAI_API_KEY e) \<Longrightarrow> batchId \<noteq> [] \<Longrightarrow> customId \<noteq> [] \<Longrightarrow>
   fst (tryGetBatchResultImageBase64 e 0 batchId customId) = Inl err \<Longrightarrow>
   batch_GET e (Some batchId) (Some customId) =
     Some \<lparr>code = 500, body = ErrorBody (lit ''Unexpected server error in /api/batch'')\<rparr>"
  using batch_GET_upstream_failed[of e batchId customId err] by (simp add: json_reply_def)

lemma generate_GET_failed:
  "\<not> key_missing (OPENAI_API_KEY e) \<Longrightarrow> USE_BATCH e \<Longrightarrow>
   createSingleImageBatch e (generation_body e (buildPrompt e msg kw)) = Inl err \<Longrightarrow>
   generate_GET e msg kw =
     Some \<lparr>code = 500, body = ErrorBody (lit ''Unexpected server error in /api/generate'')\<rparr>"
  "\<not> key_missing (OPENAI_API_KEY e) \<Longrightarrow> USE_BATCH e \<Longrightarrow>
   createSingleImageBatch e (generation_body e (buildPrompt e msg kw)) = Inr (bid, cid) \<Longrightarrow>
   \<forall>j < n. \<exists>st. fst (tryGetBatchResultImageBase64 e j bid cid) = Inr (NotDone st) \<Longrightarrow>
   n * timer_delay (BATCH_POLL_INTERVAL_MS e) < BATCH_POLL_TIMEOUT_MS e \<Longrightarrow>
   fst (tryGetBatchResultImageBase64 e n bid cid) = Inl err \<Longrightarrow>
   generate_GET e msg kw =
     Some \<lparr>code = 500, body = ErrorBody (lit ''Unexpected server error in /api/generate'')\<rparr>"
proof -
  show "\<not> key_missing (OPENAI_API_KEY e) \<Longrightarrow> USE_BATCH e \<Longrightarrow>
   createSingleImageBatch e (generation_body e (buildPrompt e msg kw)) = Inl err \<Longrightarrow>
   generate_GET e msg kw =
     Some \<lparr>code = 500, body = ErrorBody (lit ''Unexpected server error in /api/generate'')\<rparr>"
    using generate_GET_upstream_failed[of e msg kw err] by (simp add: json_reply_def)
  show "\<not> key_missing (OPENAI_API_KEY e) \<Longrightarrow> USE_BATCH e \<Longrightarrow>
   createSingleImageBatch e (generation_body e (buildPrompt e msg kw)) = Inr (bid, cid) \<Longrightarrow>
   \<forall>j < n. \<exists>st. fst (tryGetBatchResultImageBase64 e j bid cid) = Inr (NotDone st) \<Longrightarrow>
   n * timer_delay (BATCH_POLL_INTERVAL_MS e) < BATCH_POLL_TIMEOUT_MS e \<Longrightarrow>
   fst (tryGetBatchResultImageBase64 e n bid cid) = Inl err \<Longrightarrow>
   generate_GET e msg kw =
     Some \<lparr>code = 500, body = ErrorBody (lit ''Unexpected server error in /api/generate'')\<rparr>"
    using generate_GET_poll_failed[of e msg kw bid cid n err] by (simp add: json_reply_def)
qed

text \<open>
  Claim C8, as stated, fails for the status query: the polling endpoint answers a fixed
  message, and the upstream diagnostic (\<open>boom\<close>) stays in the exception it caught.
\<close>

theorem upstream_failure_counterexample:
  "batch_GET env_status_down (Some (lit ''b'')) (Some (lit ''c'')) =
     Some \<lparr>code = 500, body = ErrorBody (lit ''Unexpected server error in /api/batch'')\<rparr> \<and>
   fst (tryGetBatchResultImageBase64 env_status_down 0 (lit ''b'') (lit ''c'')) =
     Inl (lit ''OpenAI batch status failed (503): boom'')"
proof -
  have s: "String_of_nat 503 = lit ''503''"
    by (simp add: String_of_nat.simps[of 503] String_of_nat.simps[of 50] String_of_nat.simps[of 5]
        lit_def)
  have q: "query_status env_status_down 0 (lit ''b'') =
      Resp (ok_response\<lparr>ok := False, status := 503, text_body := lit ''boom''\<rparr>)"
    by (simp add: env_status_down_def env0_def)
  have t: "fst (tryGetBatchResultImageBase64 env_status_down 0 (lit ''b'') (lit ''c'')) =
     Inl (lit ''OpenAI batch status failed (503): boom'')"
    using tryGet_throws_diagnostic(1)[OF q, of "lit ''c''"]
    by (simp add: ok_response_def s) (simp add: lit_def)
  have k: "\<not> key_missing (OPENAI_API_KEY env_status_down)"
    by (simp add: env_status_down_def env0_def key_missing_def lit_def)
  have "batch_GET env_status_down (Some (lit ''b'')) (Some (lit ''c'')) =
     Some (json_reply (ErrorBody (lit ''Unexpected server error in /api/batch'')) 500)"
    by (rule batch_GET_upstream_failed[OF k _ _ t]) (simp_all add: lit_def)
  then show ?thesis using t by (simp add: json_reply_def)
qed

text \<open>
  Claim C8, amended. A non-success answer to the file upload or to the job creation of the
  batch submission endpoint surfaces as a 502 response whose \<open>error\<close> field is the
  diagnostic: the name of the failed step, the upstream status code and the first 200 code
  units of the upstream body. In the polling endpoint a non-success answer to the status
  query or to the output fetch, and in the single image endpoint (batch mode) a non-success
  answer to the upload, to the job creation, or to a status query or output fetch that the
  poll loop makes inside its budget, makes the failed step throw an error whose message is
  that diagnostic, and the caller gets a 500 response whose \<open>error\<close> field is the fixed text
  \<open>Unexpected server error in /api/batch\<close>, respectively \<open>/api/generate\<close>.
\<close>

theorem upstream_failure_responses:
  "(\<not> key_missing (OPENAI_API_KEY e) \<and> items_of itemsIn \<noteq> [] \<and>
      (\<forall>j. upload e j = Resp upRes) \<and> \<not> ok upRes \<longrightarrow>
      fst (csv_POST e (ItemsArray itemsIn)) =
        \<lparr>code = 502, body = ErrorBody (diagnostic ''OpenAI file upload failed'' upRes)\<rparr>) \<and>
   (\<not> key_missing (OPENAI_API_KEY e) \<and> items_of itemsIn \<noteq> [] \<and>
      (\<forall>j. upload e j = Resp upRes) \<and> ok upRes \<and>
      create_batch e (json_id upRes) = Resp batchRes \<and> \<not> ok batchRes \<longrightarrow>
      fst (csv_POST e (ItemsArray itemsIn)) =
        \<lparr>code = 502, body = ErrorBody (diagnostic ''OpenAI batch create failed'' batchRes)\<rparr>) \<and>
   (\<not> key_missing (OPENAI_API_KEY e) \<and> batchId \<noteq> [] \<and> customId \<noteq> [] \<and>
      query_status e 0 batchId = Resp stRes \<and> \<not> ok stRes \<longrightarrow>
      fst (tryGetBatchResultImageBase64 e 0 batchId customId) =
        Inl (diagnostic ''OpenAI batch status failed'' stRes) \<and>
      batch_GET e (Some batchId) (Some customId) =
        Some \<lparr>code = 500, body = ErrorBody (lit ''Unexpected server error in /api/batch'')\<rparr>) \<and>
   (\<not> key_missing (OPENAI_API_KEY e) \<and> batchId \<noteq> [] \<and> customId \<noteq> [] \<and>
      query_status e 0 batchId = Resp stRes \<and> ok stRes \<and> json_status stRes = lit ''completed'' \<and>
      json_output_file_id stRes = Some outId \<and> outId \<noteq> [] \<and>
      fetch_content e outId = Resp outRes \<and> \<not> ok outRes \<longrightarrow>
      fst (tryGetBatchResultImageBase64 e 0 batchId customId) =
        Inl (diagnostic ''OpenAI batch output fetch failed'' outRes) \<and>
      batch_GET e (Some batchId) (Some customId) =
        Some \<lparr>code = 500, body = ErrorBody (lit ''Unexpected server error in /api/batch'')\<rparr>) \<and>
   (\<not> key_missing (OPENAI_API_KEY e) \<and> USE_BATCH e \<and>
      (\<forall>j. upload e j = Resp upRes) \<and> \<not> ok upRes \<longrightarrow>
      createSingleImageBatch e (generation_body e (buildPrompt e msg kw)) =
        Inl (diagnostic ''OpenAI file upload failed'' upRes) \<and>
      generate_GET e msg kw =
        Some \<lparr>code = 500, body = ErrorBody (lit ''Unexpected server error in /api/generate'')\<rparr>) \<and>
   (\<not> key_missing (OPENAI_API_KEY e) \<and> USE_BATCH e \<and>
      (\<forall>j. upload e j = Resp upRes) \<and> ok upRes \<and>
      create_batch e (json_id upRes) = Resp batchRes \<and> \<not> ok batchRes \<longrightarrow>
      createSingleImageBatch e (generation_body e (buildPrompt e msg kw)) =
        Inl (diagnostic ''OpenAI batch create failed'' batchRes) \<and>
      generate_GET e msg kw =
        Some \<lparr>code = 500, body = ErrorBody (lit ''Unexpected server error in /api/generate'')\<rparr>) \<and>
   (\<not> key_missing (OPENAI_API_KEY e) \<and> USE_BATCH e \<and>
      createSingleImageBatch e (generation_body e (buildPrompt e msg kw)) = Inr (bid, cid) \<and>
      (\<forall>j < n. \<exists>st. fst (tryGetBatchResultImageBase64 e j bid cid) = Inr (NotDone st)) \<and>
      n * timer_delay (BATCH_POLL_INTERVAL_MS e) < BATCH_POLL_TIMEOUT_MS e \<and>
      query_status e n bid = Resp pollRes \<and> \<not> ok pollRes \<longrightarrow>
      fst (tryGetBatchResultImageBase64 e n bid cid) =
        Inl (diagnostic ''OpenAI batch status failed'' pollRes) \<and>
      generate_GET e msg kw =
        Some \<lparr>code = 500, body = ErrorBody (lit ''Unexpected server error in /api/generate'')\<rparr>) \<and>
   (\<not> key_missing (OPENAI_API_KEY e) \<and> USE_BATCH e \<and>
      createSingleImageBatch e (generation_body e (buildPrompt e msg kw)) = Inr (bid, cid) \<and>
      (\<forall>j < n. \<exists>st. fst (tryGetBatchResultImageBase64 e j bid cid) = Inr (NotDone st)) \<and>
      n * timer_delay (BATCH_POLL_INTERVAL_MS e) < BATCH_POLL_TIMEOUT_MS e \<and>
      query_status e n bid = Resp pollRes \<and> ok pollRes \<and> json_status pollRes = lit ''completed'' \<and>
      json_output_file_id pollRes = Some pollId \<and> pollId \<noteq> [] \<and>
      fetch_content e pollId = Resp pollOut \<and> \<not> ok pollOut \<longrightarrow>
      fst (tryGetBatchResultImageBase64 e n bid cid) =
        Inl (diagnostic ''OpenAI batch output fetch failed'' pollOut) \<and>
      generate_GET e msg kw =
        Some \<lparr>code = 500, body = ErrorBody (lit ''Unexpected server error in /api/generate'')\<rparr>)"
proof (intro conjI impI; elim conjE)
  assume "\<not> key_missing (OPENAI_API_KEY e)" "items_of itemsIn \<noteq> []"
    "\<forall>j. upload e j = Resp upRes" "\<not> ok upRes"
  then show "fst (csv_POST e (ItemsArray itemsIn)) =
        \<lparr>code = 502, body = ErrorBody (diagnostic ''OpenAI file upload failed'' upRes)\<rparr>"
    by (rule csv_POST_diagnostic(1))
next
  assume "\<not> key_missing (OPENAI_API_KEY e)" "items_of itemsIn \<noteq> []"
    "\<forall>j. upload e j = Resp upRes" "ok upRes"
    "create_batch e (json_id upRes) = Resp batchRes" "\<not> ok batchRes"
  then show "fst (csv_POST e (ItemsArray itemsIn)) =
        \<lparr>code = 502, body = ErrorBody (diagnostic ''OpenAI batch create failed'' batchRes)\<rparr>"
    by (rule csv_POST_diagnostic(2))
next
  assume a: "\<not> key_missing (OPENAI_API_KEY e)" "batchId \<noteq> []" "customId \<noteq> []"
    and q: "query_status e 0 batchId = Resp stRes" "\<not> ok stRes"
  show t: "fst (tryGetBatchResultImageBase64 e 0 batchId customId) =
        Inl (diagnostic ''OpenAI batch status failed'' stRes)"
    using q by (rule tryGet_failed(1))
  show "batch_GET e (Some batchId) (Some customId) =
        Some \<lparr>code = 500, body = ErrorBody (lit ''Unexpected server error in /api/batch'')\<rparr>"
    using a t by (rule batch_GET_failed)
next
  assume a: "\<not> key_missing (OPENAI_API_KEY e)" "batchId \<noteq> []" "customId \<noteq> []"
    and q: "query_status e 0 batchId = Resp stRes" "ok stRes" "json_status stRes = lit ''completed''"
      "json_output_file_id stRes = Some outId" "outId \<noteq> []"
      "fetch_content e outId = Resp outRes" "\<not> ok outRes"
  show t: "fst (tryGetBatchResultImageBase64 e 0 batchId customId) =
        Inl (diagnostic ''OpenAI batch output fetch failed'' outRes)"
    using q by (rule tryGet_failed(2))
  show "batch_GET e (Some batchId) (Some customId) =
        Some \<lparr>code = 500, body = ErrorBody (lit ''Unexpected server error in /api/batch'')\<rparr>"
    using a t by (rule batch_GET_failed)
next
  assume a: "\<not> key_missing (OPENAI_API_KEY e)" "USE_BATCH e"
    and u: "\<forall>j. upload e j = Resp upRes" "\<not> ok upRes"
  show c: "createSingleImageBatch e (generation_body e (buildPrompt e msg kw)) =
        Inl (diagnostic ''OpenAI file upload failed'' upRes)"
    using u by (rule createSingleImageBatch_diagnostic(1))
  show "generate_GET e msg kw =
        Some \<lparr>code = 500, body = ErrorBody (lit ''Unexpected server error in /api/generate'')\<rparr>"
    using a c by (rule generate_GET_failed(1))
next
  assume a: "\<not> key_missing (OPENAI_API_KEY e)" "USE_BATCH e"
    and u: "\<forall>j. upload e j = Resp upRes" "ok upRes"
      "create_batch e (json_id upRes) = Resp batchRes" "\<not> ok batchRes"
  show c: "createSingleImageBatch e (generation_body e (buildPrompt e msg kw)) =
        Inl (diagnostic ''OpenAI batch create failed'' batchRes)"
    using u by (rule createSingleImageBatch_diagnostic(2))
  show "generate_GET e msg kw =
        Some \<lparr>code = 500, body = ErrorBody (lit ''Unexpected server error in /api/generate'')\<rparr>"
    using a c by (rule generate_GET_failed(1))
next
  assume a: "\<not> key_missing (OPENAI_API_KEY e)" "USE_BATCH e"
      "createSingleImageBatch e (generation_body e (buildPrompt e msg kw)) = Inr (bid, cid)"
      "\<forall>j < n. \<exists>st. fst (tryGetBatchResultImageBase64 e j bid cid) = Inr (NotDone st)"
      "n * timer_delay (BATCH_POLL_INTERVAL_MS e) < BATCH_POLL_TIMEOUT_MS e"
    and q: "query_status e n bid = Resp pollRes" "\<not> ok pollRes"
  show t: "fst (tryGetBatchResultImageBase64 e n bid cid) =
        Inl (diagnostic ''OpenAI batch status failed'' pollRes)"
    using q by (rule tryGet_failed(1))
  show "generate_GET e msg kw =
        Some \<lparr>code = 500, body = ErrorBody (lit ''Unexpected server error in /api/generate'')\<rparr>"
    using a t by (rule generate_GET_failed(2))
next
  assume a: "\<not> key_missing (OPENAI_API_KEY e)" "USE_BATCH e"
      "createSingleImageBatch e (generation_body e (buildPrompt e msg kw)) = Inr (bid, cid)"
      "\<forall>j < n. \<exists>st. fst (tryGetBatchResultImageBase64 e j bid cid) = Inr (NotDone st)"
      "n * timer_delay (BATCH_POLL_INTERVAL_MS e) < BATCH_POLL_TIMEOUT_MS e"
    and q: "query_status e n bid = Resp pollRes" "ok pollRes" "json_status pollRes = lit ''completed''"
      "json_output_file_id pollRes = Some pollId" "pollId \<noteq> []"
      "fetch_content e pollId = Resp pollOut" "\<not> ok pollOut"
  show t: "fst (tryGetBatchResultImageBase64 e n bid cid) =
        Inl (diagnostic ''OpenAI batch output fetch failed'' pollOut)"
    using q by (rule tryGet_failed(2))
  show "generate_GET e msg kw =
        Some \<lparr>code = 500, body = ErrorBody (lit ''Unexpected server error in /api/generate'')\<rparr>"
    using a t by (rule generate_GET_failed(2))
qed


lemma status_strings:
  "String_of_nat 429 = lit ''429''" "String_of_nat 500 = lit ''500''"
  "String_of_nat 503 = lit ''503''" "String_of_nat 404 = lit ''404''"
  by (simp_all add: String_of_nat.simps[of 429] String_of_nat.simps[of 42]
      String_of_nat.simps[of 500] String_of_nat.simps[of 50] String_of_nat.simps[of 503]
      String_of_nat.simps[of 404] String_of_nat.simps[of 40]
      String_of_nat.simps[of 4] String_of_nat.simps[of 5] lit_def)

lemma diagnostic_values:
  "diagnostic ''OpenAI file upload failed''
     (ok_response\<lparr>ok := False, status := 429, text_body := lit ''quota''\<rparr>) =
   lit ''OpenAI file upload failed (429): quota''"
  "diagnostic ''OpenAI batch create failed''
     (ok_response\<lparr>ok := False, status := 500, text_body := replicate 250 0x78\<rparr>) =
   lit ''OpenAI batch create failed (500): '' @ replicate 200 0x78"
  "diagnostic ''OpenAI batch status failed''
     (ok_response\<lparr>ok := False, status := 503, text_body := lit ''boom''\<rparr>) =
   lit ''OpenAI batch status failed (503): boom''"
  "diagnostic ''OpenAI batch output fetch failed''
     (ok_response\<lparr>ok := False, status := 404, text_body := lit ''gone''\<rparr>) =
   lit ''OpenAI batch output fetch failed (404): gone''"
  by (simp_all add: diagnostic_def status_strings) (simp_all add: lit_def)

lemma failing_envs:
  "\<not> key_missing (OPENAI_API_KEY env_upload_down)" "USE_BATCH env_upload_down"
  "\<not> key_missing (OPENAI_API_KEY env_create_down)" "USE_BATCH env_create_down"
  "\<not> key_missing (OPENAI_API_KEY env_status_down)" "USE_BATCH env_status_down"
  "\<not> key_missing (OPENAI_API_KEY env_fetch_down)" "USE_BATCH env_fetch_down"
  "\<not> key_missing (OPENAI_API_KEY env_late_down)" "USE_BATCH env_late_down"
  "BATCH_POLL_INTERVAL_MS env_late_down = 2000" "BATCH_POLL_TIMEOUT_MS env_late_down = 25000"
  "BATCH_POLL_INTERVAL_MS env_fetch_down = 2000" "BATCH_POLL_TIMEOUT_MS env_fetch_down = 25000"
  by (simp_all add: env_upload_down_def env_create_down_def env_status_down_def env_fetch_down_def
      env_late_down_def env_done_def env0_def key_missing_def lit_def)

lemma failing_upstreams:
  "upload env_upload_down j =
     Resp (ok_response\<lparr>ok := False, status := 429, text_body := lit ''quota''\<rparr>)"
  "upload env_create_down j = Resp ok_response"
  "create_batch env_create_down i =
     Resp (ok_response\<lparr>ok := False, status := 500, text_body := replicate 250 0x78\<rparr>)"
  "query_status env_status_down k b =
     Resp (ok_response\<lparr>ok := False, status := 503, text_body := lit ''boom''\<rparr>)"
  "query_status env_fetch_down k b =
     Resp (ok_response\<lparr>json_status := lit ''completed'', json_output_file_id := Some (lit ''out-1'')\<rparr>)"
  "fetch_content env_fetch_down i =
     Resp (ok_response\<lparr>ok := False, status := 404, text_body := lit ''gone''\<rparr>)"
  "k < 2 \<Longrightarrow> query_status env_late_down k b = Resp ok_response"
  "query_status env_late_down 2 b =
     Resp (ok_response\<lparr>ok := False, status := 503, text_body := lit ''boom''\<rparr>)"
  by (simp_all add: env_upload_down_def env_create_down_def env_status_down_def env_fetch_down_def
      env_late_down_def env_done_def env0_def)

lemma created_ids:
  "createSingleImageBatch env_late_down (generation_body env_late_down (buildPrompt env_late_down [] []))
     = Inr (lit ''batch-1'', lit ''gen-7-ab'')"
  "createSingleImageBatch env_fetch_down (generation_body env_fetch_down (buildPrompt env_fetch_down [] []))
     = Inr (lit ''batch-1'', lit ''gen-7-ab'')"
  by (simp_all add: createSingleImageBatch_def env_late_down_def env_fetch_down_def env_done_def
      env0_def ok_response_def Let_def String_of_nat.simps[of 7] lit_def)

theorem upstream_failure_responses_witness:
  "fst (csv_POST env_upload_down (ItemsArray items0)) =
     \<lparr>code = 502, body = ErrorBody (lit ''OpenAI file upload failed (429): quota'')\<rparr> \<and>
   fst (csv_POST env_create_down (ItemsArray items0)) =
     \<lparr>code = 502,
       body = ErrorBody (lit ''OpenAI batch create failed (500): '' @ replicate 200 0x78)\<rparr> \<and>
   fst (tryGetBatchResultImageBase64 env_status_down 0 (lit ''b'') (lit ''c'')) =
     Inl (lit ''OpenAI batch status failed (503): boom'') \<and>
   batch_GET env_status_down (Some (lit ''b'')) (Some (lit ''c'')) =
     Some \<lparr>code = 500, body = ErrorBody (lit ''Unexpected server error in /api/batch'')\<rparr> \<and>
   fst (tryGetBatchResultImageBase64 env_fetch_down 0 (lit ''b'') (lit ''c'')) =
     Inl (lit ''OpenAI batch output fetch failed (404): gone'') \<and>
   batch_GET env_fetch_down (Some (lit ''b'')) (Some (lit ''c'')) =
     Some \<lparr>code = 500, body = ErrorBody (lit ''Unexpected server error in /api/batch'')\<rparr> \<and>
   createSingleImageBatch env_upload_down
       (generation_body env_upload_down (buildPrompt env_upload_down [] [])) =
     Inl (lit ''OpenAI file upload failed (429): quota'') \<and>
   generate_GET env_upload_down [] [] =
     Some \<lparr>code = 500, body = ErrorBody (lit ''Unexpected server error in /api/generate'')\<rparr> \<and>
   createSingleImageBatch env_create_down
       (generation_body env_create_down (buildPrompt env_create_down [] [])) =
     Inl (lit ''OpenAI batch create failed (500): '' @ replicate 200 0x78) \<and>
   generate_GET env_create_down [] [] =
     Some \<lparr>code = 500, body = ErrorBody (lit ''Unexpected server error in /api/generate'')\<rparr> \<and>
   fst (tryGetBatchResultImageBase64 env_late_down 2 (lit ''batch-1'') (lit ''gen-7-ab'')) =
     Inl (lit ''OpenAI batch status failed (503): boom'') \<and>
   generate_GET env_late_down [] [] =
     Some \<lparr>code = 500, body = ErrorBody (lit ''Unexpected server error in /api/generate'')\<rparr> \<and>
   fst (tryGetBatchResultImageBase64 env_fetch_down 0 (lit ''batch-1'') (lit ''gen-7-ab'')) =
     Inl (lit ''OpenAI batch output fetch failed (404): gone'') \<and>
   generate_GET env_fetch_down [] [] =
     Some \<lparr>code = 500, body = ErrorBody (lit ''Unexpected server error in /api/generate'')\<rparr>"
proof -
  let ?up = "ok_response\<lparr>ok := False, status := 429, text_body := lit ''quota''\<rparr>"
  let ?cr = "ok_response\<lparr>ok := False, status := 500, text_body := replicate 250 0x78\<rparr>"
  let ?st = "ok_response\<lparr>ok := False, status := 503, text_body := lit ''boom''\<rparr>"
  let ?dn = "ok_response\<lparr>json_status := lit ''completed'',
               json_output_file_id := Some (lit ''out-1'')\<rparr>"
  let ?ft = "ok_response\<lparr>ok := False, status := 404, text_body := lit ''gone''\<rparr>"
  have ne: "items_of items0 \<noteq> []" by (simp add: items_of_survivors items0_survivors)
  have ids: "lit ''b'' \<noteq> []" "lit ''c'' \<noteq> []" "lit ''out-1'' \<noteq> []" by (simp_all add: lit_def)
  have f: "\<not> ok ?up" "\<not> ok ?cr" "\<not> ok ?st" "\<not> ok ?ft" "ok ?dn" "ok ok_response"
    "json_status ?dn = lit ''completed''" "json_output_file_id ?dn = Some (lit ''out-1'')"
    "json_id ok_response = lit ''file-1''"
    by (simp_all add: ok_response_def)
  have td: "timer_delay 2000 = 2000" by (simp add: timer_delay_def)
  have nd: "\<forall>j < 2. \<exists>st. fst (tryGetBatchResultImageBase64 env_late_down j (lit ''batch-1'')
      (lit ''gen-7-ab'')) = Inr (NotDone st)"
    by (simp add: tryGetBatchResultImageBase64_def failing_upstreams ok_response_fields)
  note a = upstream_failure_responses[where e = env_upload_down and itemsIn = items0
      and upRes = ?up and msg = "[]" and kw = "[]"]
  note b = upstream_failure_responses[where e = env_create_down and itemsIn = items0
      and upRes = ok_response and batchRes = ?cr and msg = "[]" and kw = "[]"]
  note c = upstream_failure_responses[where e = env_status_down and batchId = "lit ''b''"
      and customId = "lit ''c''" and stRes = ?st]
  note d = upstream_failure_responses[where e = env_fetch_down and batchId = "lit ''b''"
      and customId = "lit ''c''" and stRes = ?dn and outId = "lit ''out-1''" and outRes = ?ft
      and msg = "[]" and kw = "[]" and bid = "lit ''batch-1''" and cid = "lit ''gen-7-ab''"
      and n = 0 and pollRes = ?dn and pollId = "lit ''out-1''" and pollOut = ?ft]
  note g = upstream_failure_responses[where e = env_late_down and msg = "[]" and kw = "[]"
      and bid = "lit ''batch-1''" and cid = "lit ''gen-7-ab''" and n = 2 and pollRes = ?st]
  have 1: "fst (csv_POST env_upload_down (ItemsArray items0)) =
     \<lparr>code = 502, body = ErrorBody (lit ''OpenAI file upload failed (429): quota'')\<rparr>"
    using a[THEN conjunct1] failing_envs(1) ne failing_upstreams(1) f(1)
    unfolding diagnostic_values by simp
  have 2: "fst (csv_POST env_create_down (ItemsArray items0)) =
     \<lparr>code = 502,
       body = ErrorBody (lit ''OpenAI batch create failed (500): '' @ replicate 200 0x78)\<rparr>"
    using b[THEN conjunct2, THEN conjunct1] failing_envs(3) ne failing_upstreams(2,3) f(2,6)
    unfolding diagnostic_values by simp
  have 3: "fst (tryGetBatchResultImageBase64 env_status_down 0 (lit ''b'') (lit ''c'')) =
     Inl (lit ''OpenAI batch status failed (503): boom'') \<and>
   batch_GET env_status_down (Some (lit ''b'')) (Some (lit ''c'')) =
     Some \<lparr>code = 500, body = ErrorBody (lit ''Unexpected server error in /api/batch'')\<rparr>"
    using c[THEN conjunct2, THEN conjunct2, THEN conjunct1] failing_envs(5) ids
      failing_upstreams(4) f(3)
    unfolding diagnostic_values by simp
  have 4: "fst (tryGetBatchResultImageBase64 env_fetch_down 0 (lit ''b'') (lit ''c'')) =
     Inl (lit ''OpenAI batch output fetch failed (404): gone'') \<and>
   batch_GET env_fetch_down (Some (lit ''b'')) (Some (lit ''c'')) =
     Some \<lparr>code = 500, body = ErrorBody (lit ''Unexpected server error in /api/batch'')\<rparr>"
    using d[THEN conjunct2, THEN conjunct2, THEN conjunct2, THEN conjunct1] failing_envs(7) ids
      failing_upstreams(5,6) f(4,5,7,8)
    unfolding diagnostic_values by simp
  have 5: "createSingleImageBatch env_upload_down
       (generation_body env_upload_down (buildPrompt env_upload_down [] [])) =
     Inl (lit ''OpenAI file upload failed (429): quota'') \<and>
   generate_GET env_upload_down [] [] =
     Some \<lparr>code = 500, body = ErrorBody (lit ''Unexpected server error in /api/generate'')\<rparr>"
    using a[THEN conjunct2, THEN conjunct2, THEN conjunct2, THEN conjunct2, THEN conjunct1]
      failing_envs(1,2) failing_upstreams(1) f(1)
    unfolding diagnostic_values by simp
  have 6: "createSingleImageBatch env_create_down
       (generation_body env_create_down (buildPrompt env_create_down [] [])) =
     Inl (lit ''OpenAI batch create failed (500): '' @ replicate 200 0x78) \<and>
   generate_GET env_create_down [] [] =
     Some \<lparr>code = 500, body = ErrorBody (lit ''Unexpected server error in /api/generate'')\<rparr>"
    using b[THEN conjunct2, THEN conjunct2, THEN conjunct2, THEN conjunct2, THEN conjunct2,
        THEN conjunct1]
      failing_envs(3,4) failing_upstreams(2,3) f(2,6)
    unfolding diagnostic_values by simp
  have 7: "fst (tryGetBatchResultImageBase64 env_late_down 2 (lit ''batch-1'') (lit ''gen-7-ab'')) =
     Inl (lit ''OpenAI batch status failed (503): boom'') \<and>
   generate_GET env_late_down [] [] =
     Some \<lparr>code = 500, body = ErrorBody (lit ''Unexpected server error in /api/generate'')\<rparr>"
    using g[THEN conjunct2, THEN conjunct2, THEN conjunct2, THEN conjunct2, THEN conjunct2,
        THEN conjunct2, THEN conjunct1]
      failing_envs(9-12) created_ids(1) nd failing_upstreams(8) f(3)
    unfolding diagnostic_values by (simp add: td)
  have 8: "fst (tryGetBatchResultImageBase64 env_fetch_down 0 (lit ''batch-1'') (lit ''gen-7-ab'')) =
     Inl (lit ''OpenAI batch output fetch failed (404): gone'') \<and>
   generate_GET env_fetch_down [] [] =
     Some \<lparr>code = 500, body = ErrorBody (lit ''Unexpected server error in /api/generate'')\<rparr>"
    using d[THEN conjunct2, THEN conjunct2, THEN conjunct2, THEN conjunct2, THEN conjunct2,
        THEN conjunct2, THEN conjunct2]
      failing_envs(7,8,13,14) created_ids(2) failing_upstreams(5,6) f(4,5,7,8) ids
    unfolding diagnostic_values by (simp add: td)
  show ?thesis using 1 2 3 4 5 6 7 8 by simp
qed

end
